theory Spec2Isabelle
  imports Main "HOL-Library.Word"
begin

unbundle bit_operations_syntax

section \<open>Video sender: fragmentation and pacing\<close>

text \<open>
  The model follows \<^verbatim>\<open>server/src/network/video_sender.cpp\<close> and the declarations of
  \<^verbatim>\<open>video_sender.hpp\<close>. The frame buffer \<^verbatim>\<open>(data, size)\<close> is a list of bytes whose length
  is \<^verbatim>\<open>size\<close>. The kernel's answer to each \<^verbatim>\<open>sendto\<close> call is an input of the model
  (\<open>sendto i\<close> is the value returned for the call made for fragment \<open>i\<close>), and
  everything the function does to the outside world is returned as a list of effects.
\<close>

datatype PacingMode = AUTO | NONE | LIGHT | AGGRESSIVE | KEYFRAME

definition MAX_PAYLOAD_SIZE :: nat where
  "MAX_PAYLOAD_SIZE = 1200"

definition VIDEO_MAGIC :: "16 word" where
  "VIDEO_MAGIC = 0x5354"

definition FLAG_KEYFRAME :: "8 word" where
  "FLAG_KEYFRAME = 0x01"

definition FLAG_START_OF_FRAME :: "8 word" where
  "FLAG_START_OF_FRAME = 0x02"

definition FLAG_END_OF_FRAME :: "8 word" where
  "FLAG_END_OF_FRAME = 0x04"

record VideoPacketHeader =
  magic :: "16 word"
  sequence :: "16 word"
  frame_number :: "16 word"
  flags :: "8 word"
  reserved :: "8 word"
  fragment_idx :: "16 word"
  fragment_count :: "16 word"
  payload_len :: "16 word"
  reserved2 :: "16 word"

record packet =
  header :: VideoPacketHeader
  payload :: "8 word list"

record VideoSender =
  m_socket :: int
  m_client_set :: bool
  m_sequence :: "16 word"
  m_bytes_sent :: "64 word"
  m_packets_sent :: "64 word"
  m_pacing_mode :: PacingMode
  m_pacing_threshold :: nat
  m_packets_per_burst :: int
  m_burst_delay_us :: int

datatype effect = Datagram packet | Sleep int

text \<open>
  \<^verbatim>\<open>set_client\<close>: the address fields are not modelled; \<open>detected\<close> is the value
  \<^verbatim>\<open>detect_pacing_mode(host)\<close> returns, read only when the requested mode is \<open>AUTO\<close>.
\<close>

definition set_client :: "PacingMode \<Rightarrow> PacingMode \<Rightarrow> VideoSender \<Rightarrow> VideoSender" where
  "set_client detected mode s =
     (let pm = (if mode = AUTO then detected else mode);
          s1 = s\<lparr>m_client_set := True, m_pacing_mode := pm\<rparr>
      in case pm of
           NONE \<Rightarrow> s1\<lparr>m_pacing_threshold := 1000000000, m_packets_per_burst := 0,
                       m_burst_delay_us := 0\<rparr>
         | LIGHT \<Rightarrow> s1\<lparr>m_pacing_threshold := 50000, m_packets_per_burst := 20,
                        m_burst_delay_us := 50\<rparr>
         | AGGRESSIVE \<Rightarrow> s1\<lparr>m_pacing_threshold := 2400, m_packets_per_burst := 4,
                             m_burst_delay_us := 200\<rparr>
         | KEYFRAME \<Rightarrow> s1\<lparr>m_pacing_threshold := 0, m_packets_per_burst := 8,
                           m_burst_delay_us := 100\<rparr>
         | AUTO \<Rightarrow> s1\<lparr>m_pacing_threshold := 50000, m_packets_per_burst := 20,
                       m_burst_delay_us := 50\<rparr>)"

text \<open>
  \<^verbatim>\<open>send_packet\<close>: \<open>sent\<close> is what \<^verbatim>\<open>sendto\<close> returned. A negative value is the
  failure branch, which transmits nothing and leaves the counters alone.
\<close>

definition send_packet :: "int \<Rightarrow> packet \<Rightarrow> VideoSender \<Rightarrow> bool \<times> VideoSender \<times> effect list" where
  "send_packet sent p s =
     (if sent < 0 then (False, s, [])
      else (True,
            s\<lparr>m_bytes_sent := m_bytes_sent s + of_int sent,
              m_packets_sent := m_packets_sent s + 1\<rparr>,
            [Datagram p]))"

text \<open>The values that stay fixed while the fragments of one frame are sent.\<close>

record frame_ctx =
  sendto :: "nat \<Rightarrow> int"
  frame_data :: "8 word list"
  frame_no :: "32 word"
  keyframe :: bool
  num_fragments :: nat
  need_pacing :: bool
  packets_per_burst :: int
  burst_delay_us :: int

definition build_packet :: "frame_ctx \<Rightarrow> nat \<Rightarrow> nat \<Rightarrow> 16 word \<Rightarrow> packet" where
  "build_packet c i offset seq =
     (let payload_size = min MAX_PAYLOAD_SIZE (length (frame_data c) - offset)
      in \<lparr>header =
            \<lparr>magic = VIDEO_MAGIC,
             sequence = seq,
             frame_number = ucast (frame_no c AND 0xFFFF),
             flags = (if keyframe c then FLAG_KEYFRAME else 0)
                     OR (if i = 0 then FLAG_START_OF_FRAME else 0)
                     OR (if i = num_fragments c - 1 then FLAG_END_OF_FRAME else 0),
             reserved = 0,
             fragment_idx = of_nat i,
             fragment_count = of_nat (num_fragments c),
             payload_len = of_nat payload_size,
             reserved2 = 0\<rparr>,
          payload = take payload_size (drop offset (frame_data c))\<rparr>)"

text \<open>
  The \<^verbatim>\<open>for\<close> loop of \<^verbatim>\<open>send_frame\<close>, from fragment \<open>i\<close> on, with the loop variables
  \<^verbatim>\<open>offset\<close> and \<^verbatim>\<open>packets_in_burst\<close>. The result is the value \<^verbatim>\<open>send_frame\<close> returns,
  the sender afterwards and the effects in the order they happen.
\<close>

function send_fragments ::
  "frame_ctx \<Rightarrow> nat \<Rightarrow> nat \<Rightarrow> int \<Rightarrow> VideoSender \<Rightarrow> bool \<times> VideoSender \<times> effect list" where
  "send_fragments c i offset packets_in_burst s =
     (if i < num_fragments c then
        (let payload_size = min MAX_PAYLOAD_SIZE (length (frame_data c) - offset);
             pkt = build_packet c i offset (m_sequence s);
             s1 = s\<lparr>m_sequence := m_sequence s + 1\<rparr>
         in case send_packet (sendto c i) pkt s1 of
              (False, s2, es) \<Rightarrow> (False, s2, es)
            | (True, s2, es) \<Rightarrow>
                (let offset' = offset + payload_size
                 in if need_pacing c then
                      (let pib = packets_in_burst + 1
                       in if pib \<ge> packets_per_burst c \<and> i < num_fragments c - 1 then
                            (case send_fragments c (i + 1) offset' 0 s2 of
                               (r, s3, es') \<Rightarrow> (r, s3, es @ [Sleep (burst_delay_us c)] @ es'))
                          else
                            (case send_fragments c (i + 1) offset' pib s2 of
                               (r, s3, es') \<Rightarrow> (r, s3, es @ es')))
                    else
                      (case send_fragments c (i + 1) offset' packets_in_burst s2 of
                         (r, s3, es') \<Rightarrow> (r, s3, es @ es'))))
      else (True, s, []))"
  by pat_completeness auto
termination
  by (relation "measure (\<lambda>(c, i, offset, pib, s). num_fragments c - i)") auto

declare send_fragments.simps [simp del]

text \<open>
  The pacing decision of \<^verbatim>\<open>send_frame\<close> (the block that sets \<^verbatim>\<open>need_pacing\<close>,
  \<^verbatim>\<open>packets_per_burst\<close> and \<^verbatim>\<open>burst_delay_us\<close> before the loop).
\<close>

definition pacing_params :: "VideoSender \<Rightarrow> nat \<Rightarrow> bool \<Rightarrow> bool \<times> int \<times> int" where
  "pacing_params s frame_size kf =
     (if m_pacing_mode s = KEYFRAME then
        (if kf \<and> frame_size > 100000 then
           (if frame_size > 500000 then (kf, 2, 300)
            else if frame_size > 300000 then (kf, 4, 200)
            else (kf, 6, 150))
         else (kf, m_packets_per_burst s, m_burst_delay_us s))
      else if m_pacing_mode s \<noteq> NONE then
        (frame_size > m_pacing_threshold s, m_packets_per_burst s, m_burst_delay_us s)
      else (False, m_packets_per_burst s, m_burst_delay_us s))"

text \<open>
  The fragment count \<^verbatim>\<open>(size + MAX_PAYLOAD_SIZE - 1) / MAX_PAYLOAD_SIZE\<close>. \<^verbatim>\<open>size_t\<close> is
  64 bits wide, so the sum is taken modulo \<open>2 ^ 64\<close>.
\<close>

definition fragments_needed :: "nat \<Rightarrow> nat" where
  "fragments_needed sz = ((sz + MAX_PAYLOAD_SIZE - 1) mod 2 ^ 64) div MAX_PAYLOAD_SIZE"

text \<open>\<^verbatim>\<open>send_frame\<close>, with the early returns of the source as branches.\<close>

definition send_frame ::
  "(nat \<Rightarrow> int) \<Rightarrow> 8 word list \<Rightarrow> 32 word \<Rightarrow> bool \<Rightarrow> VideoSender
     \<Rightarrow> bool \<times> VideoSender \<times> effect list" where
  "send_frame net buf frame_num kf s =
     (if \<not> m_client_set s \<or> m_socket s < 0 then (False, s, [])
      else
        (let size = length buf;
             n = fragments_needed size
         in if n > 65535 then (False, s, [])
            else
              (case pacing_params s size kf of
                 (np, ppb, delay) \<Rightarrow>
                   send_fragments
                     \<lparr>sendto = net, frame_data = buf, frame_no = frame_num, keyframe = kf,
                      num_fragments = n, need_pacing = np, packets_per_burst = ppb,
                      burst_delay_us = delay\<rparr>
                     0 0 0 s)))"

text \<open>
  A sender as the constructor and a successful \<^verbatim>\<open>init\<close> leave it (the member
  initialisers of the class, with an open socket), and a kernel that accepts every
  datagram of a buffer and reports its full length (16 header bytes and the payload).
\<close>

definition sender0 :: VideoSender where
  "sender0 =
     \<lparr>m_socket = 3, m_client_set = False, m_sequence = 0, m_bytes_sent = 0,
      m_packets_sent = 0, m_pacing_mode = LIGHT, m_pacing_threshold = 0,
      m_packets_per_burst = 0, m_burst_delay_us = 0\<rparr>"

definition sendto_full :: "8 word list \<Rightarrow> nat \<Rightarrow> int" where
  "sendto_full buf i = 16 + int (min MAX_PAYLOAD_SIZE (length buf - i * MAX_PAYLOAD_SIZE))"

text \<open>A kernel that refuses the datagram of fragment \<open>k\<close> and accepts the others.\<close>

definition sendto_fail_at :: "nat \<Rightarrow> 8 word list \<Rightarrow> nat \<Rightarrow> int" where
  "sendto_fail_at k buf i = (if i = k then - 1 else sendto_full buf i)"

text \<open>Reading a trace: the datagrams in order, and whether a header flag is set.\<close>

fun datagrams :: "effect list \<Rightarrow> packet list" where
  "datagrams [] = []"
| "datagrams (Datagram p # es) = p # datagrams es"
| "datagrams (Sleep d # es) = datagrams es"

definition has_flag :: "8 word \<Rightarrow> packet \<Rightarrow> bool" where
  "has_flag f p = (flags (header p) AND f \<noteq> 0)"


fun pauses :: "effect list \<Rightarrow> int option list" where
  "pauses [] = []"
| "pauses (Datagram p # es) = None # pauses es"
| "pauses (Sleep d # es) = Some d # pauses es"

text \<open>
  The pacing pattern of a frame of \<open>n\<close> fragments sent in bursts of \<open>B\<close> with a pause of
  \<open>D\<close> microseconds: one \<open>None\<close> for each datagram and \<open>Some D\<close> for a pause, which
  comes after every \<open>B\<close>-th datagram that is not the last one.
\<close>

definition paced :: "nat \<Rightarrow> nat \<Rightarrow> int \<Rightarrow> int option list" where
  "paced n B D =
     concat (map (\<lambda>k. None # (if Suc k mod B = 0 \<and> Suc k < n then [Some D] else [])) [0..<n])"

text \<open>The loop variables after one successful pass of the loop.\<close>

definition next_burst :: "frame_ctx \<Rightarrow> nat \<Rightarrow> int \<Rightarrow> int" where
  "next_burst c i pib =
     (if need_pacing c then
        (if pib + 1 \<ge> packets_per_burst c \<and> i < num_fragments c - 1 then 0 else pib + 1)
      else pib)"

definition pause_after :: "frame_ctx \<Rightarrow> nat \<Rightarrow> int \<Rightarrow> effect list" where
  "pause_after c i pib =
     (if need_pacing c \<and> pib + 1 \<ge> packets_per_burst c \<and> i < num_fragments c - 1
      then [Sleep (burst_delay_us c)] else [])"

definition sent_state :: "frame_ctx \<Rightarrow> nat \<Rightarrow> VideoSender \<Rightarrow> VideoSender" where
  "sent_state c i s =
     s\<lparr>m_sequence := m_sequence s + 1,
       m_bytes_sent := m_bytes_sent s + of_int (sendto c i),
       m_packets_sent := m_packets_sent s + 1\<rparr>"

section \<open>Control channel: the configuration response\<close>

text \<open>
  The model follows \<^verbatim>\<open>ControlServer::send_message\<close>, \<^verbatim>\<open>send_config\<close>,
  \<^verbatim>\<open>send_config_with_audio\<close> and \<^verbatim>\<open>send_config_full\<close> of the control server, and the
  step of \<^verbatim>\<open>Server::run\<close> that answers the configuration request. The \<^verbatim>\<open>int\<close> arguments
  are integers; \<^verbatim>\<open>(v >> 8) & 0xFF\<close> and \<^verbatim>\<open>v & 0xFF\<close> are the source's expressions, stored
  into a byte.
\<close>

definition MSG_CONFIG_RESPONSE :: "8 word" where
  "MSG_CONFIG_RESPONSE = 0x04"

definition hi_byte :: "int \<Rightarrow> 8 word" where
  "hi_byte v = of_int (drop_bit 8 v AND 0xFF)"

definition lo_byte :: "int \<Rightarrow> 8 word" where
  "lo_byte v = of_int (v AND 0xFF)"

text \<open>
  \<^verbatim>\<open>send_message\<close>: the bytes handed to the transport, and the value returned, which
  compares \<open>n\<close> (what \<^verbatim>\<open>send\<close> or \<^verbatim>\<open>SSL_write\<close> returned) with the message size.
\<close>

definition send_message :: "int \<Rightarrow> 8 word \<Rightarrow> 8 word list \<Rightarrow> bool \<times> 8 word list" where
  "send_message n msg_type payload_bytes =
     (let len = length payload_bytes;
          length16 = uint (of_nat (len + 1) :: 16 word);
          msg = [hi_byte length16, lo_byte length16, msg_type] @ payload_bytes
      in (n = int (length msg), msg))"

definition send_config_data :: "int \<Rightarrow> int \<Rightarrow> int \<Rightarrow> int \<Rightarrow> 8 word list" where
  "send_config_data screen_width screen_height video_port input_port =
     [hi_byte screen_width, lo_byte screen_width,
      hi_byte screen_height, lo_byte screen_height,
      hi_byte video_port, lo_byte video_port,
      hi_byte input_port, lo_byte input_port]"

definition send_config :: "int \<Rightarrow> int \<Rightarrow> int \<Rightarrow> int \<Rightarrow> int \<Rightarrow> bool \<times> 8 word list" where
  "send_config n screen_width screen_height video_port input_port =
     send_message n MSG_CONFIG_RESPONSE
       (send_config_data screen_width screen_height video_port input_port)"

definition send_config_with_audio_data ::
  "int \<Rightarrow> int \<Rightarrow> int \<Rightarrow> int \<Rightarrow> int \<Rightarrow> int \<Rightarrow> int \<Rightarrow> int \<Rightarrow> 8 word list" where
  "send_config_with_audio_data screen_width screen_height video_port input_port
       audio_port audio_sample_rate audio_channels audio_frame_ms =
     [hi_byte screen_width, lo_byte screen_width,
      hi_byte screen_height, lo_byte screen_height,
      hi_byte video_port, lo_byte video_port,
      hi_byte input_port, lo_byte input_port,
      hi_byte audio_port, lo_byte audio_port,
      hi_byte audio_sample_rate, lo_byte audio_sample_rate,
      of_int audio_channels,
      of_int audio_frame_ms]"

definition send_config_with_audio ::
  "int \<Rightarrow> int \<Rightarrow> int \<Rightarrow> int \<Rightarrow> int \<Rightarrow> int \<Rightarrow> int \<Rightarrow> int \<Rightarrow> int \<Rightarrow> bool \<times> 8 word list" where
  "send_config_with_audio n screen_width screen_height video_port input_port
       audio_port audio_sample_rate audio_channels audio_frame_ms =
     send_message n MSG_CONFIG_RESPONSE
       (send_config_with_audio_data screen_width screen_height video_port input_port
          audio_port audio_sample_rate audio_channels audio_frame_ms)"

definition send_config_full_data ::
  "int \<Rightarrow> int \<Rightarrow> int \<Rightarrow> int \<Rightarrow> int \<Rightarrow> int \<Rightarrow> int \<Rightarrow> int \<Rightarrow> 8 word \<Rightarrow> 8 word list" where
  "send_config_full_data screen_width screen_height video_port input_port
       audio_port audio_sample_rate audio_channels audio_frame_ms codec_type =
     [hi_byte screen_width, lo_byte screen_width,
      hi_byte screen_height, lo_byte screen_height,
      hi_byte video_port, lo_byte video_port,
      hi_byte input_port, lo_byte input_port,
      hi_byte audio_port, lo_byte audio_port,
      hi_byte audio_sample_rate, lo_byte audio_sample_rate,
      of_int audio_channels,
      of_int audio_frame_ms,
      codec_type]"

definition send_config_full ::
  "int \<Rightarrow> int \<Rightarrow> int \<Rightarrow> int \<Rightarrow> int \<Rightarrow> int \<Rightarrow> int \<Rightarrow> int \<Rightarrow> int \<Rightarrow> 8 word
     \<Rightarrow> bool \<times> 8 word list" where
  "send_config_full n screen_width screen_height video_port input_port
       audio_port audio_sample_rate audio_channels audio_frame_ms codec_type =
     send_message n MSG_CONFIG_RESPONSE
       (send_config_full_data screen_width screen_height video_port input_port
          audio_port audio_sample_rate audio_channels audio_frame_ms codec_type)"

text \<open>The fields of \<^verbatim>\<open>ServerConfig\<close> that the handshake reads.\<close>

record ServerConfig =
  video_port :: "16 word"
  input_port :: "16 word"
  audio_port :: "16 word"
  audio_sample_rate :: int
  audio_channels :: int
  audio_frame_ms :: int

definition default_config :: ServerConfig where
  "default_config =
     \<lparr>video_port = 9501, input_port = 9502, audio_port = 9503,
      audio_sample_rate = 48000, audio_channels = 2, audio_frame_ms = 10\<rparr>"

text \<open>
  The handshake step of \<^verbatim>\<open>Server::run\<close> as \<^verbatim>\<open>server/src/server.cpp\<close> has it: the reply
  to the configuration request is sent with \<^verbatim>\<open>send_config\<close>. \<open>width\<close> and \<open>height\<close>
  are what the capture backend reports.
\<close>

definition run_config_response :: "int \<Rightarrow> int \<Rightarrow> int \<Rightarrow> ServerConfig \<Rightarrow> bool \<times> 8 word list" where
  "run_config_response n width height cfg =
     send_config n width height (uint (video_port cfg)) (uint (input_port cfg))"

text \<open>
  The same step in the other source of \<^verbatim>\<open>Server::run\<close> (the server with audio and codec
  selection): the reply is sent with \<^verbatim>\<open>send_config_full\<close>; the audio port is 0 unless the
  build has Opus and audio was initialised.
\<close>

definition run_config_response_full ::
  "int \<Rightarrow> bool \<Rightarrow> bool \<Rightarrow> 8 word \<Rightarrow> int \<Rightarrow> int \<Rightarrow> ServerConfig \<Rightarrow> bool \<times> 8 word list" where
  "run_config_response_full n have_opus m_audio_initialized codec_type width height cfg =
     (let port = (if have_opus then (if m_audio_initialized then uint (audio_port cfg) else 0)
                  else 0)
      in send_config_full n width height (uint (video_port cfg)) (uint (input_port cfg))
           port (audio_sample_rate cfg) (audio_channels cfg) (audio_frame_ms cfg) codec_type)"

section \<open>Video encoder: colour conversion and forced keyframes\<close>

text \<open>
  The model follows \<^verbatim>\<open>convert_bgra_to_nv12_fast\<close> and \<^verbatim>\<open>VAAPIEncoder::encode\<close> of
  \<^verbatim>\<open>server/src/encoder/vaapi_encoder.cpp\<close>. A buffer reached through a pointer is a function
  from byte offsets to bytes. The arithmetic is C's \<^verbatim>\<open>int\<close> arithmetic on promoted bytes;
  no intermediate value leaves the 32-bit range, and \<^verbatim>\<open>>>\<close> on a negative \<^verbatim>\<open>int\<close> is
  the arithmetic shift, which rounds down as \<open>drop_bit\<close> does.
\<close>

type_synonym memory = "nat \<Rightarrow> 8 word"

definition luma :: "int \<Rightarrow> int \<Rightarrow> int \<Rightarrow> int" where
  "luma r g b = drop_bit 8 (66 * r + 129 * g + 25 * b + 128) + 16"

definition chroma_u :: "int \<Rightarrow> int \<Rightarrow> int \<Rightarrow> int" where
  "chroma_u r g b = drop_bit 8 (- 38 * r - 74 * g + 112 * b + 128) + 128"

definition chroma_v :: "int \<Rightarrow> int \<Rightarrow> int \<Rightarrow> int" where
  "chroma_v r g b = drop_bit 8 (112 * r - 94 * g - 18 * b + 128) + 128"

definition clamp255 :: "int \<Rightarrow> int" where
  "clamp255 u = (if u < 0 then 0 else if u > 255 then 255 else u)"

text \<open>One luma byte: the pixel \<open>x\<close> of the source row that starts at offset \<open>src\<close>.\<close>

definition y_byte :: "memory \<Rightarrow> nat \<Rightarrow> nat \<Rightarrow> 8 word" where
  "y_byte bgra src x =
     (let b = uint (bgra (src + x * 4 + 0));
          g = uint (bgra (src + x * 4 + 1));
          r = uint (bgra (src + x * 4 + 2))
      in of_int (luma r g b))"

text \<open>The scalar row loop \<^verbatim>\<open>for (; x < width; x++)\<close>, from \<open>x0\<close> on.\<close>

definition y_row_scalar :: "memory \<Rightarrow> nat \<Rightarrow> nat \<Rightarrow> nat \<Rightarrow> nat \<Rightarrow> memory \<Rightarrow> memory" where
  "y_row_scalar bgra src dst_y width x0 plane =
     fold (\<lambda>x p. p(dst_y + x := y_byte bgra src x)) [x0..<width] plane"

text \<open>
  The row loop of the \<^verbatim>\<open>HAS_SSE2\<close> branch: four pixels for each pass while
  \<^verbatim>\<open>x <= width - 4\<close>, then the scalar loop for the rest.
\<close>

function y_row_unrolled :: "memory \<Rightarrow> nat \<Rightarrow> nat \<Rightarrow> nat \<Rightarrow> nat \<Rightarrow> memory \<Rightarrow> memory" where
  "y_row_unrolled bgra src dst_y width x plane =
     (if x + 4 \<le> width then
        y_row_unrolled bgra src dst_y width (x + 4)
          (plane(dst_y + x + 0 := y_byte bgra src (x + 0),
                 dst_y + x + 1 := y_byte bgra src (x + 1),
                 dst_y + x + 2 := y_byte bgra src (x + 2),
                 dst_y + x + 3 := y_byte bgra src (x + 3)))
      else y_row_scalar bgra src dst_y width x plane)"
  by pat_completeness auto
termination
  by (relation "measure (\<lambda>(bgra, src, dst_y, width, x, plane). width - x)") auto

declare y_row_unrolled.simps [simp del]

text \<open>The chroma pair of block \<open>x\<close> of the source rows at offsets \<open>src0\<close> and \<open>src1\<close>.\<close>

definition block_avg :: "memory \<Rightarrow> nat \<Rightarrow> nat \<Rightarrow> nat \<Rightarrow> nat \<Rightarrow> int" where
  "block_avg bgra src0 src1 x ch =
     drop_bit 2 (uint (bgra (src0 + x * 8 + ch)) + uint (bgra (src0 + x * 8 + ch + 4))
                 + uint (bgra (src1 + x * 8 + ch)) + uint (bgra (src1 + x * 8 + ch + 4)))"

definition u_byte :: "memory \<Rightarrow> nat \<Rightarrow> nat \<Rightarrow> nat \<Rightarrow> 8 word" where
  "u_byte bgra src0 src1 x =
     of_int (clamp255 (chroma_u (block_avg bgra src0 src1 x 2) (block_avg bgra src0 src1 x 1)
                                (block_avg bgra src0 src1 x 0)))"

definition v_byte :: "memory \<Rightarrow> nat \<Rightarrow> nat \<Rightarrow> nat \<Rightarrow> 8 word" where
  "v_byte bgra src0 src1 x =
     of_int (clamp255 (chroma_v (block_avg bgra src0 src1 x 2) (block_avg bgra src0 src1 x 1)
                                (block_avg bgra src0 src1 x 0)))"

definition uv_row :: "memory \<Rightarrow> nat \<Rightarrow> nat \<Rightarrow> nat \<Rightarrow> nat \<Rightarrow> memory \<Rightarrow> memory" where
  "uv_row bgra src0 src1 dst_uv width plane =
     fold (\<lambda>x p. p(dst_uv + x * 2 + 0 := u_byte bgra src0 src1 x,
                    dst_uv + x * 2 + 1 := v_byte bgra src0 src1 x))
          [0..<width div 2] plane"

text \<open>
  \<^verbatim>\<open>convert_bgra_to_nv12_fast\<close>: the luma plane and the interleaved chroma plane after the
  call. \<open>has_sse2\<close> selects the branch of the \<^verbatim>\<open>#ifdef\<close>; both have the same chroma loop.
\<close>

definition convert_bgra_to_nv12_fast ::
  "bool \<Rightarrow> memory \<Rightarrow> nat \<Rightarrow> nat \<Rightarrow> nat \<Rightarrow> memory \<Rightarrow> memory \<Rightarrow> nat \<Rightarrow> nat \<Rightarrow> memory \<times> memory" where
  "convert_bgra_to_nv12_fast has_sse2 bgra width height src_stride y_plane uv_plane
       y_stride uv_stride =
     (fold (\<lambda>y p. if has_sse2
                   then y_row_unrolled bgra (y * src_stride) (y * y_stride) width 0 p
                   else y_row_scalar bgra (y * src_stride) (y * y_stride) width 0 p)
           [0..<height] y_plane,
      fold (\<lambda>y p. uv_row bgra ((y * 2) * src_stride) ((y * 2 + 1) * src_stride)
                     (y * uv_stride) width p)
           [0..<height div 2] uv_plane)"













section \<open>Input relay: synthetic devices and event dispatch\<close>

text \<open>
  The model follows \<^verbatim>\<open>UInputBackend::send_stylus\<close> and \<^verbatim>\<open>send_touch\<close> of
  \<^verbatim>\<open>server/src/input/uinput_backend.cpp\<close> and \<^verbatim>\<open>Server::handle_input\<close> of
  \<^verbatim>\<open>server/src/server.cpp\<close>. Every \<^verbatim>\<open>emit(fd, type, code, value)\<close> becomes one entry of
  the returned list, with the device that owns the descriptor; the Linux event types and
  codes are kept by name. Coordinates, pressure and tilt are floating-point numbers in the
  source: the model takes the integers that the coordinate transform, \<^verbatim>\<open>transform_coord\<close>
  and the casts to \<^verbatim>\<open>int\<close> compute from them.
\<close>

datatype device = StylusDev | MouseDev | TouchDev

datatype ev_type = EV_SYN | EV_KEY | EV_ABS

datatype ev_code =
    SYN_REPORT
  | BTN_TOOL_PEN | BTN_TOOL_RUBBER | BTN_TOUCH
  | BTN_TOOL_FINGER | BTN_TOOL_DOUBLETAP | BTN_TOOL_TRIPLETAP | BTN_TOOL_QUADTAP
  | BTN_TOOL_QUINTTAP
  | BTN_LEFT | BTN_RIGHT | BTN_MIDDLE
  | ABS_X | ABS_Y | ABS_PRESSURE | ABS_TILT_X | ABS_TILT_Y
  | ABS_MT_SLOT | ABS_MT_TRACKING_ID | ABS_MT_POSITION_X | ABS_MT_POSITION_Y | ABS_MT_PRESSURE

type_synonym emitted = "device \<times> ev_type \<times> ev_code \<times> int"

record TouchSlot =
  active :: bool
  tracking_id :: int

record UInputBackend =
  m_stylus_fd :: int
  m_mouse_fd :: int
  m_touch_fd :: int
  m_screen_width :: int
  m_screen_height :: int
  m_stylus_tool_active :: bool
  m_stylus_touching :: bool
  m_touch_slots :: "nat \<Rightarrow> TouchSlot"

definition is_initialized :: "UInputBackend \<Rightarrow> bool" where
  "is_initialized s = (m_stylus_fd s \<ge> 0 \<and> m_mouse_fd s \<ge> 0 \<and> m_touch_fd s \<ge> 0)"

definition send_stylus ::
  "int \<Rightarrow> int \<Rightarrow> int \<Rightarrow> int \<Rightarrow> int \<Rightarrow> bool \<Rightarrow> bool \<Rightarrow> bool \<Rightarrow> bool \<Rightarrow> bool \<Rightarrow> UInputBackend
     \<Rightarrow> UInputBackend \<times> emitted list" where
  "send_stylus abs_x abs_y abs_pressure tilt_x tilt_y tip_down button1 button2 eraser in_range s =
     (if m_stylus_fd s < 0 then (s, [])
      else if in_range then
        (let (s1, e1) =
               (if \<not> m_stylus_tool_active s \<and> \<not> eraser
                then (s\<lparr>m_stylus_tool_active := True\<rparr>,
                      [(StylusDev, EV_KEY, BTN_TOOL_PEN, 1),
                       (StylusDev, EV_KEY, BTN_TOOL_RUBBER, 0)])
                else (s, []));
             (s2, e2) =
               (if eraser \<and> m_stylus_tool_active s1
                then (s1\<lparr>m_stylus_tool_active := False\<rparr>,
                      [(StylusDev, EV_KEY, BTN_TOOL_PEN, 0),
                       (StylusDev, EV_KEY, BTN_TOOL_RUBBER, 1)])
                else (s1, []));
             (s3, e3) =
               (if tip_down \<and> \<not> m_stylus_touching s2
                then (s2\<lparr>m_stylus_touching := True\<rparr>, [(StylusDev, EV_KEY, BTN_TOUCH, 1)])
                else if \<not> tip_down \<and> m_stylus_touching s2
                then (s2\<lparr>m_stylus_touching := False\<rparr>, [(StylusDev, EV_KEY, BTN_TOUCH, 0)])
                else (s2, []))
         in (s3,
             e1 @ e2 @ e3 @
             [(StylusDev, EV_ABS, ABS_X, abs_x),
              (StylusDev, EV_ABS, ABS_Y, abs_y),
              (StylusDev, EV_ABS, ABS_PRESSURE, if m_stylus_touching s3 then abs_pressure else 0),
              (StylusDev, EV_ABS, ABS_TILT_X, tilt_x),
              (StylusDev, EV_ABS, ABS_TILT_Y, tilt_y),
              (StylusDev, EV_SYN, SYN_REPORT, 0)]))
      else
        (let (s1, e1) =
               (if m_stylus_touching s
                then (s\<lparr>m_stylus_touching := False\<rparr>, [(StylusDev, EV_KEY, BTN_TOUCH, 0)])
                else (s, []));
             (s2, e2) =
               (if m_stylus_tool_active s1
                then (s1\<lparr>m_stylus_tool_active := False\<rparr>, [(StylusDev, EV_KEY, BTN_TOOL_PEN, 0)])
                else (s1, []))
         in (s2,
             e1 @ e2 @
             [(StylusDev, EV_KEY, BTN_TOOL_RUBBER, 0),
              (StylusDev, EV_ABS, ABS_PRESSURE, 0),
              (StylusDev, EV_SYN, SYN_REPORT, 0)])))"

text \<open>The loop that counts the active slots of the five.\<close>

definition active_count :: "UInputBackend \<Rightarrow> int" where
  "active_count s = int (length (filter (\<lambda>i. active (m_touch_slots s i)) [0..<5]))"

text \<open>The three \<^verbatim>\<open>switch\<close> statements of \<^verbatim>\<open>send_touch\<close>, with their defaults.\<close>

definition clear_previous_tool :: "int \<Rightarrow> emitted list" where
  "clear_previous_tool n =
     (if n = 1 then [(TouchDev, EV_KEY, BTN_TOOL_FINGER, 0)]
      else if n = 2 then [(TouchDev, EV_KEY, BTN_TOOL_DOUBLETAP, 0)]
      else if n = 3 then [(TouchDev, EV_KEY, BTN_TOOL_TRIPLETAP, 0)]
      else if n = 4 then [(TouchDev, EV_KEY, BTN_TOOL_QUADTAP, 0)]
      else [(TouchDev, EV_KEY, BTN_TOOL_QUINTTAP, 0)])"

definition set_new_tool :: "int \<Rightarrow> emitted list" where
  "set_new_tool n =
     (if n = 1 then [(TouchDev, EV_KEY, BTN_TOOL_FINGER, 1)]
      else if n = 2 then [(TouchDev, EV_KEY, BTN_TOOL_DOUBLETAP, 1)]
      else if n = 3 then [(TouchDev, EV_KEY, BTN_TOOL_TRIPLETAP, 1)]
      else if n = 4 then [(TouchDev, EV_KEY, BTN_TOOL_QUADTAP, 1)]
      else [(TouchDev, EV_KEY, BTN_TOOL_QUINTTAP, 1)])"

definition clear_tool_on_up :: "int \<Rightarrow> emitted list" where
  "clear_tool_on_up n =
     (if n = 2 then [(TouchDev, EV_KEY, BTN_TOOL_DOUBLETAP, 0)]
      else if n = 3 then [(TouchDev, EV_KEY, BTN_TOOL_TRIPLETAP, 0)]
      else if n = 4 then [(TouchDev, EV_KEY, BTN_TOOL_QUADTAP, 0)]
      else if n = 5 then [(TouchDev, EV_KEY, BTN_TOOL_QUINTTAP, 0)]
      else [])"

definition send_touch ::
  "int \<Rightarrow> int \<Rightarrow> int \<Rightarrow> bool \<Rightarrow> int \<Rightarrow> UInputBackend \<Rightarrow> UInputBackend \<times> emitted list" where
  "send_touch abs_x abs_y slot down abs_pressure s =
     (if m_touch_fd s < 0 \<or> slot < 0 \<or> slot \<ge> 5 then (s, [])
      else if down then
        (let was_down = active (m_touch_slots s (nat slot));
             (s1, e1) =
               (if \<not> was_down then
                  (let s1 = s\<lparr>m_touch_slots :=
                                (m_touch_slots s)(nat slot := \<lparr>active = True, tracking_id = slot\<rparr>)\<rparr>;
                       n = active_count s1
                   in (s1,
                       [(TouchDev, EV_ABS, ABS_MT_TRACKING_ID, slot),
                        (TouchDev, EV_KEY, BTN_TOUCH, 1)]
                       @ clear_previous_tool (n - 1) @ set_new_tool n))
                else (s, []))
         in (s1,
             [(TouchDev, EV_ABS, ABS_MT_SLOT, slot)] @ e1 @
             [(TouchDev, EV_ABS, ABS_MT_PRESSURE, abs_pressure),
              (TouchDev, EV_ABS, ABS_MT_POSITION_X, abs_x),
              (TouchDev, EV_ABS, ABS_MT_POSITION_Y, abs_y),
              (TouchDev, EV_ABS, ABS_X, abs_x),
              (TouchDev, EV_ABS, ABS_Y, abs_y),
              (TouchDev, EV_SYN, SYN_REPORT, 0)]))
      else
        (let n = active_count s
         in (s\<lparr>m_touch_slots :=
                 (m_touch_slots s)(nat slot := \<lparr>active = False, tracking_id = - 1\<rparr>)\<rparr>,
             [(TouchDev, EV_ABS, ABS_MT_SLOT, slot),
              (TouchDev, EV_ABS, ABS_MT_TRACKING_ID, - 1),
              (TouchDev, EV_KEY, BTN_TOUCH, 0),
              (TouchDev, EV_KEY, BTN_TOOL_FINGER, 0)]
             @ clear_tool_on_up n @
             [(TouchDev, EV_SYN, SYN_REPORT, 0)])))"

text \<open>The event kinds of \<^verbatim>\<open>InputEventType\<close>; the wire byte is cast to the enumeration.\<close>

definition TOUCH_DOWN :: "8 word" where "TOUCH_DOWN = 0x01"
definition TOUCH_MOVE :: "8 word" where "TOUCH_MOVE = 0x02"
definition TOUCH_UP :: "8 word" where "TOUCH_UP = 0x03"
definition STYLUS_DOWN :: "8 word" where "STYLUS_DOWN = 0x04"
definition STYLUS_MOVE :: "8 word" where "STYLUS_MOVE = 0x05"
definition STYLUS_UP :: "8 word" where "STYLUS_UP = 0x06"
definition STYLUS_HOVER :: "8 word" where "STYLUS_HOVER = 0x07"
definition KEY_DOWN :: "8 word" where "KEY_DOWN = 0x08"
definition KEY_UP :: "8 word" where "KEY_UP = 0x09"

record InputEvent =
  ev_kind :: "8 word"
  pointer_id :: "8 word"
  ev_x :: int
  ev_y :: int
  ev_pressure :: int
  ev_tilt_x :: int
  ev_tilt_y :: int
  buttons :: "16 word"

text \<open>
  \<^verbatim>\<open>Server::handle_input\<close>. \<^verbatim>\<open>sync()\<close> has an empty body. A kind without a \<^verbatim>\<open>case\<close>
  label reaches \<^verbatim>\<open>default: break\<close>.
\<close>

definition handle_input :: "InputEvent \<Rightarrow> UInputBackend \<Rightarrow> UInputBackend \<times> emitted list" where
  "handle_input e s =
     (if \<not> is_initialized s then (s, [])
      else if ev_kind e = STYLUS_DOWN \<or> ev_kind e = STYLUS_MOVE \<or> ev_kind e = STYLUS_HOVER then
        (let tip_down = (ev_kind e \<noteq> STYLUS_HOVER);
             button1 = (buttons e AND 0x02 \<noteq> 0);
             button2 = (buttons e AND 0x04 \<noteq> 0);
             eraser = (buttons e AND 0x20 \<noteq> 0)
         in send_stylus (ev_x e) (ev_y e) (ev_pressure e) (ev_tilt_x e) (ev_tilt_y e)
              tip_down button1 button2 eraser True s)
      else if ev_kind e = STYLUS_UP then
        send_stylus (ev_x e) (ev_y e) 0 (ev_tilt_x e) (ev_tilt_y e)
          False False False False False s
      else if ev_kind e = TOUCH_DOWN \<or> ev_kind e = TOUCH_MOVE then
        send_touch (ev_x e) (ev_y e) (uint (pointer_id e)) True (ev_pressure e) s
      else if ev_kind e = TOUCH_UP then
        send_touch (ev_x e) (ev_y e) (uint (pointer_id e)) False 0 s
      else (s, []))"

text \<open>Events in arrival order: the relay afterwards and everything emitted, in order.\<close>

fun handle_inputs :: "InputEvent list \<Rightarrow> UInputBackend \<Rightarrow> UInputBackend \<times> emitted list" where
  "handle_inputs [] s = (s, [])"
| "handle_inputs (e # es) s =
     (case handle_input e s of
        (s1, out1) \<Rightarrow> (case handle_inputs es s1 of (s2, out2) \<Rightarrow> (s2, out1 @ out2)))"

text \<open>The relay after a successful \<^verbatim>\<open>init\<close>, and some events.\<close>

definition no_slots :: "nat \<Rightarrow> TouchSlot" where
  "no_slots i = \<lparr>active = False, tracking_id = - 1\<rparr>"

definition uinput0 :: UInputBackend where
  "uinput0 =
     \<lparr>m_stylus_fd = 3, m_mouse_fd = 4, m_touch_fd = 5,
      m_screen_width = 1920, m_screen_height = 1080,
      m_stylus_tool_active = False, m_stylus_touching = False,
      m_touch_slots = no_slots\<rparr>"

definition event :: "8 word \<Rightarrow> 8 word \<Rightarrow> 16 word \<Rightarrow> InputEvent" where
  "event kind pid btns =
     \<lparr>ev_kind = kind, pointer_id = pid, ev_x = 32767, ev_y = 32767, ev_pressure = 52428,
      ev_tilt_x = 0, ev_tilt_y = 0, buttons = btns\<rparr>"

section \<open>Auxiliary definitions for the statements\<close>

text \<open>
  The key that the touch device reports for a number of active contacts, as the input relay's
  description gives it: 1 finger, 2 double tap, 3 triple tap, 4 quad tap, 5 quint tap.
\<close>

definition tool_key_for_count :: "int \<Rightarrow> ev_code" where
  "tool_key_for_count n =
     (if n = 1 then BTN_TOOL_FINGER
      else if n = 2 then BTN_TOOL_DOUBLETAP
      else if n = 3 then BTN_TOOL_TRIPLETAP
      else if n = 4 then BTN_TOOL_QUADTAP
      else BTN_TOOL_QUINTTAP)"


text \<open>
  A 2 by 2 source image with a stride of 8 bytes, in BGRA byte order: the pixels
  \<open>(R, G, B)\<close> are \<open>(200, 20, 8)\<close> and \<open>(100, 40, 8)\<close> in the first row,
  \<open>(50, 60, 8)\<close> and \<open>(10, 81, 8)\<close> in the second. A cleared destination.
\<close>

definition sample_image :: memory where
  "sample_image i =
     (if i < 16
      then [8, 20, 200, 255, 8, 40, 100, 255, 8, 60, 50, 255, 8, 81, 10, 255] ! i
      else 0)"

definition cleared :: memory where
  "cleared i = 0"



section \<open>Video sender: proofs\<close>

lemma datagrams_append: "datagrams (xs @ ys) = datagrams xs @ datagrams ys"
  by (induction xs rule: datagrams.induct) auto

lemma send_fragments_done:
  "\<not> i < num_fragments c \<Longrightarrow> send_fragments c i off pib s = (True, s, [])"
  by (simp add: send_fragments.simps)

lemma send_fragments_fail:
  "i < num_fragments c \<Longrightarrow> sendto c i < 0 \<Longrightarrow>
   send_fragments c i off pib s = (False, s\<lparr>m_sequence := m_sequence s + 1\<rparr>, [])"
  by (subst send_fragments.simps) (simp add: send_packet_def Let_def)

lemma datagrams_pause_after: "datagrams (pause_after c i pib) = []"
  by (simp add: pause_after_def)

lemma send_fragments_step:
  assumes "i < num_fragments c" "\<not> sendto c i < 0"
  shows "send_fragments c i off pib s =
     (case send_fragments c (Suc i) (off + min MAX_PAYLOAD_SIZE (length (frame_data c) - off))
             (next_burst c i pib) (sent_state c i s) of
        (r, s3, es') \<Rightarrow>
          (r, s3, Datagram (build_packet c i off (m_sequence s)) # pause_after c i pib @ es'))"
  using assms
  by (subst send_fragments.simps)
     (simp add: send_packet_def Let_def next_burst_def pause_after_def sent_state_def
           split: prod.splits)

lemma send_fragments_step_fst:
  assumes "i < num_fragments c" "\<not> sendto c i < 0"
  shows "fst (send_fragments c i off pib s) =
     fst (send_fragments c (Suc i) (off + min MAX_PAYLOAD_SIZE (length (frame_data c) - off))
             (next_burst c i pib) (sent_state c i s))"
  by (simp add: send_fragments_step[OF assms] case_prod_beta)

lemma send_fragments_step_trace:
  assumes "i < num_fragments c" "\<not> sendto c i < 0"
  shows "snd (snd (send_fragments c i off pib s)) =
     Datagram (build_packet c i off (m_sequence s)) # pause_after c i pib @
     snd (snd (send_fragments c (Suc i) (off + min MAX_PAYLOAD_SIZE (length (frame_data c) - off))
             (next_burst c i pib) (sent_state c i s)))"
  by (simp add: send_fragments_step[OF assms] case_prod_beta)

lemma send_fragments_datagrams:
  "send_fragments c i off pib s = (r, s', es) \<Longrightarrow>
   (\<forall>j < length (datagrams es). \<exists>off'.
        datagrams es ! j = build_packet c (i + j) off' (m_sequence s + of_nat j))
   \<and> i + length (datagrams es) \<le> max i (num_fragments c)
   \<and> (r \<longrightarrow> i + length (datagrams es) = max i (num_fragments c))"
proof (induction "num_fragments c - i" arbitrary: i off pib s r s' es)
  case 0
  then have "\<not> i < num_fragments c" by simp
  with 0 show ?case by (simp add: send_fragments_done)
next
  case (Suc k)
  then have lt: "i < num_fragments c" by simp
  show ?case
  proof (cases "sendto c i < 0")
    case True
    with lt Suc.prems show ?thesis by (auto simp: send_fragments_fail)
  next
    case False
    obtain r2 s2 es2 where
      rec: "send_fragments c (Suc i) (off + min MAX_PAYLOAD_SIZE (length (frame_data c) - off))
             (next_burst c i pib) (sent_state c i s) = (r2, s2, es2)"
      by (metis prod_cases3)
    have eq: "send_fragments c i off pib s =
        (r2, s2, Datagram (build_packet c i off (m_sequence s)) # pause_after c i pib @ es2)"
      by (simp add: send_fragments_step[OF lt False] rec)
    define sl where "sl = pause_after c i pib"
    have sl: "datagrams sl = []" by (simp add: sl_def datagrams_pause_after)
    note eq = eq[folded sl_def]
    have seq: "m_sequence (sent_state c i s) = m_sequence s + 1" by (simp add: sent_state_def)
    have k: "k = num_fragments c - Suc i" using Suc.hyps(2) by simp
    note IH = Suc.hyps(1)[OF k rec]
    from eq Suc.prems have r: "r = r2" and es: "es = Datagram (build_packet c i off (m_sequence s)) # sl @ es2"
      by simp_all
    have dg: "datagrams es = build_packet c i off (m_sequence s) # datagrams es2"
      by (simp add: es datagrams_append sl)
    show ?thesis
    proof (intro conjI allI impI)
      fix j assume "j < length (datagrams es)"
      show "\<exists>off'. datagrams es ! j = build_packet c (i + j) off' (m_sequence s + of_nat j)"
      proof (cases j)
        case 0
        then show ?thesis by (auto simp: dg)
      next
        case (Suc j')
        with \<open>j < length (datagrams es)\<close> have "j' < length (datagrams es2)" by (simp add: dg)
        with IH obtain off' where "datagrams es2 ! j' = build_packet c (Suc i + j') off' (m_sequence s + 1 + of_nat j')"
          by (auto simp: seq)
        then show ?thesis using Suc by (auto simp: dg ac_simps)
      qed
    next
      show "i + length (datagrams es) \<le> max i (num_fragments c)"
        using IH lt by (simp add: dg)
    next
      assume r
      then show "i + length (datagrams es) = max i (num_fragments c)"
        using IH lt r by (simp add: dg)
    qed
  qed
qed


lemma pauses_append: "pauses (xs @ ys) = pauses xs @ pauses ys"
  by (induction xs rule: pauses.induct) auto

lemma send_fragments_success:
  "\<forall>k<num_fragments c. 0 \<le> sendto c k \<Longrightarrow> fst (send_fragments c i off pib s)"
proof (induction "num_fragments c - i" arbitrary: i off pib s)
  case 0
  then show ?case by (simp add: send_fragments_done)
next
  case (Suc k)
  then have lt: "i < num_fragments c" by simp
  with Suc.prems have ok: "\<not> sendto c i < 0" by (simp add: not_less)
  have k: "k = num_fragments c - Suc i" using Suc.hyps(2) by simp
  show ?case
    using Suc.hyps(1)[OF k Suc.prems]
    by (simp add: send_fragments_step_fst[OF lt ok])
qed

lemma send_fragments_pauses_unpaced:
  assumes np: "\<not> need_pacing c" and ok: "\<forall>k<num_fragments c. 0 \<le> sendto c k"
  shows "pauses (snd (snd (send_fragments c i off pib s))) = replicate (num_fragments c - i) None"
proof (induction "num_fragments c - i" arbitrary: i off pib s)
  case 0
  then show ?case by (simp add: send_fragments_done)
next
  case (Suc k)
  then have lt: "i < num_fragments c" by simp
  with ok have ok': "\<not> sendto c i < 0" by (simp add: not_less)
  have k: "k = num_fragments c - Suc i" using Suc.hyps(2) by simp
  have pa: "pause_after c i pib = []" using np by (simp add: pause_after_def)
  have "num_fragments c - i = Suc (num_fragments c - Suc i)" using lt by simp
  then show ?case
    using Suc.hyps(1)[OF k]
    by (simp add: send_fragments_step_trace[OF lt ok'] pa)
qed

lemma send_fragments_pauses_paced:
  assumes np: "need_pacing c" and B: "packets_per_burst c = int B" "0 < B"
    and ok: "\<forall>k<num_fragments c. 0 \<le> sendto c k"
  shows "0 \<le> pib \<Longrightarrow> pib < int B \<Longrightarrow>
    pauses (snd (snd (send_fragments c i off pib s))) =
    concat (map (\<lambda>k. None # (if (pib + int (k - i) + 1) mod int B = 0 \<and> Suc k < num_fragments c
                              then [Some (burst_delay_us c)] else []))
                [i..<num_fragments c])"
proof (induction "num_fragments c - i" arbitrary: i off pib s)
  case 0
  then show ?case by (simp add: send_fragments_done)
next
  case (Suc k)
  then have lt: "i < num_fragments c" by simp
  with ok have ok': "\<not> sendto c i < 0" by (simp add: not_less)
  have k: "k = num_fragments c - Suc i" using Suc.hyps(2) by simp
  have upt: "[i..<num_fragments c] = i # [Suc i..<num_fragments c]"
    using lt by (simp add: upt_conv_Cons)
  have full: "(pib + 1) mod int B = 0 \<longleftrightarrow> packets_per_burst c \<le> pib + 1"
  proof
    assume "(pib + 1) mod int B = 0"
    then have "int B dvd pib + 1" by (simp add: dvd_eq_mod_eq_0)
    then have "int B \<le> pib + 1" using Suc.prems(1) by (intro zdvd_imp_le) auto
    then show "packets_per_burst c \<le> pib + 1" by (simp add: B)
  next
    assume "packets_per_burst c \<le> pib + 1"
    then have "pib + 1 = int B" using Suc.prems(2) B by simp
    then show "(pib + 1) mod int B = 0" by simp
  qed
  have head: "pauses (pause_after c i pib) =
      (if (pib + int (i - i) + 1) mod int B = 0 \<and> Suc i < num_fragments c
       then [Some (burst_delay_us c)] else [])"
    using np lt full by (auto simp: pause_after_def)
  show ?case
  proof (cases "Suc i < num_fragments c")
    case False
    with lt have last: "Suc i = num_fragments c" by simp
    then have "[Suc i..<num_fragments c] = []" by simp
    moreover have "\<not> Suc i < num_fragments c" using last by simp
    ultimately show ?thesis
      using head
      by (simp add: send_fragments_step_trace[OF lt ok'] send_fragments_done upt pauses_append)
  next
    case True
    define pib' where "pib' = next_burst c i pib"
    have pib': "pib' = (if pib + 1 = int B then 0 else pib + 1)"
      using np True Suc.prems B by (auto simp: pib'_def next_burst_def)
    have b0: "0 \<le> pib'" and b1: "pib' < int B"
      using Suc.prems B(2) by (auto simp: pib')
    have cong: "(pib' + int (j - Suc i) + 1) mod int B = (pib + int (j - i) + 1) mod int B"
      if "Suc i \<le> j" for j
    proof (cases "pib + 1 = int B")
      case True
      have "pib + int (j - i) + 1 = (int (j - Suc i) + 1) + int B"
        using that True by simp
      then have "(pib + int (j - i) + 1) mod int B = ((int (j - Suc i) + 1) + int B) mod int B"
        by (rule arg_cong)
      also have "\<dots> = (int (j - Suc i) + 1) mod int B"
        by (rule mod_add_self2)
      finally have "(pib + int (j - i) + 1) mod int B = (int (j - Suc i) + 1) mod int B" .
      moreover have "pib' = 0" using True by (simp add: pib')
      ultimately show ?thesis by simp
    next
      case False
      have "pib + int (j - i) + 1 = pib + 1 + int (j - Suc i) + 1"
        using that by simp
      moreover have "pib' = pib + 1" using False by (simp add: pib')
      ultimately show ?thesis by simp
    qed
    have tail: "map (\<lambda>k. None # (if (pib' + int (k - Suc i) + 1) mod int B = 0 \<and> Suc k < num_fragments c
                              then [Some (burst_delay_us c)] else []))
                [Suc i..<num_fragments c] =
          map (\<lambda>k. None # (if (pib + int (k - i) + 1) mod int B = 0 \<and> Suc k < num_fragments c
                              then [Some (burst_delay_us c)] else []))
                [Suc i..<num_fragments c]"
    proof (rule map_cong[OF refl])
      fix j assume "j \<in> set [Suc i..<num_fragments c]"
      then have "Suc i \<le> j" by simp
      from cong[OF this]
      show "None # (if (pib' + int (j - Suc i) + 1) mod int B = 0 \<and> Suc j < num_fragments c
                   then [Some (burst_delay_us c)] else []) =
            None # (if (pib + int (j - i) + 1) mod int B = 0 \<and> Suc j < num_fragments c
                   then [Some (burst_delay_us c)] else [])"
        by (simp only:)
    qed
    show ?thesis
      using Suc.hyps(1)[OF k b0 b1, of "off + min MAX_PAYLOAD_SIZE (length (frame_data c) - off)" "sent_state c i s"]
      by (simp add: send_fragments_step_trace[OF lt ok'] upt pauses_append head tail
               pib'_def[symmetric])
  qed
qed


lemma fragment_count_nowrap:
  "sz < 2 ^ 63 \<Longrightarrow> fragments_needed sz = (sz + 1199) div 1200"
  by (simp add: fragments_needed_def MAX_PAYLOAD_SIZE_def)

lemma send_frame_loop:
  assumes "m_client_set s" "0 \<le> m_socket s" "length buf < 2 ^ 63"
    and "(length buf + 1199) div 1200 \<le> 65535"
  shows "send_frame net buf fn kf s =
     send_fragments
       \<lparr>sendto = net, frame_data = buf, frame_no = fn, keyframe = kf,
        num_fragments = (length buf + 1199) div 1200,
        need_pacing = fst (pacing_params s (length buf) kf),
        packets_per_burst = fst (snd (pacing_params s (length buf) kf)),
        burst_delay_us = snd (snd (pacing_params s (length buf) kf))\<rparr>
       0 0 0 s"
  unfolding send_frame_def Let_def fragment_count_nowrap[OF assms(3)]
  using assms by (simp add: case_prod_beta)

lemma send_frame_rejected:
  assumes "length buf < 2 ^ 63" "65535 < (length buf + 1199) div 1200"
  shows "send_frame net buf fn kf s = (False, s, [])"
  unfolding send_frame_def Let_def fragment_count_nowrap[OF assms(1)]
  using assms by simp

lemma send_frame_closed:
  "\<not> m_client_set s \<or> m_socket s < 0 \<Longrightarrow> send_frame net buf fn kf s = (False, s, [])"
  by (auto simp: send_frame_def)

lemma flag_bits:
  "has_flag FLAG_KEYFRAME (build_packet c i off seq) = keyframe c"
  "has_flag FLAG_START_OF_FRAME (build_packet c i off seq) = (i = 0)"
  "has_flag FLAG_END_OF_FRAME (build_packet c i off seq) = (i = num_fragments c - 1)"
  by (simp_all add: has_flag_def build_packet_def Let_def FLAG_KEYFRAME_def
        FLAG_START_OF_FRAME_def FLAG_END_OF_FRAME_def)

lemma frame_number_low16: "unat (ucast (w AND 0xFFFF :: 32 word) :: 16 word) = unat w mod 65536"
proof -
  have m: "(0xFFFF :: 32 word) = mask 16"
    by (simp add: mask_eq_exp_minus_1)
  have "(ucast (w AND 0xFFFF) :: 16 word) = ucast w"
    unfolding m by (rule bit_word_eqI) (auto simp: bit_simps)
  then show ?thesis by (simp add: unsigned_ucast_eq take_bit_eq_mod)
qed

lemma build_packet_fields:
  "frame_number (header (build_packet c i off seq)) = ucast (frame_no c AND 0xFFFF)"
  "fragment_idx (header (build_packet c i off seq)) = of_nat i"
  "fragment_count (header (build_packet c i off seq)) = of_nat (num_fragments c)"
  "sequence (header (build_packet c i off seq)) = seq"
  "magic (header (build_packet c i off seq)) = VIDEO_MAGIC"
  "length (payload (build_packet c i off seq)) \<le> 1200"
  "unat (payload_len (header (build_packet c i off seq))) = length (payload (build_packet c i off seq))"
  by (simp_all add: build_packet_def Let_def MAX_PAYLOAD_SIZE_def unat_of_nat min_def)

lemma paced_int:
  "concat (map (\<lambda>k. None # (if (0 + int (k - 0) + 1) mod int B = 0 \<and> Suc k < n
                              then [Some D] else [])) [0..<n]) = paced n B D"
proof -
  have "((0 + int (k - 0) + 1) mod int B = 0) = (Suc k mod B = 0)" for k
  proof -
    have "0 + int (k - 0) + 1 = int (Suc k)" by simp
    then have "(0 + int (k - 0) + 1) mod int B = int (Suc k mod B)"
      by (simp only: of_nat_mod)
    then show ?thesis by (simp only: of_nat_eq_0_iff)
  qed
  then show ?thesis by (simp only: paced_def)
qed

lemma keyframe_mode_params:
  "pacing_params (set_client det KEYFRAME s0) sz kf =
     (if kf \<and> 100000 < sz then
        (if 500000 < sz then (kf, 2, 300) else if 300000 < sz then (kf, 4, 200) else (kf, 6, 150))
      else (kf, 8, 100))"
  by (simp add: pacing_params_def set_client_def)

lemma send_frame_keyframe_pauses:
  assumes sock: "0 \<le> m_socket s0" and sz: "length buf < 2 ^ 63"
    and fits: "(length buf + 1199) div 1200 \<le> 65535"
    and net: "\<forall>i < (length buf + 1199) div 1200. 0 \<le> net i"
  shows "pauses (snd (snd (send_frame net buf fn kf (set_client det KEYFRAME s0)))) =
     (if \<not> kf then replicate ((length buf + 1199) div 1200) None
      else if 500000 < length buf then paced ((length buf + 1199) div 1200) 2 300
      else if 300000 < length buf then paced ((length buf + 1199) div 1200) 4 200
      else if 100000 < length buf then paced ((length buf + 1199) div 1200) 6 150
      else paced ((length buf + 1199) div 1200) 8 100)"
proof -
  define s where "s = set_client det KEYFRAME s0"
  define n where "n = (length buf + 1199) div 1200"
  define c where "c =
       \<lparr>sendto = net, frame_data = buf, frame_no = fn, keyframe = kf,
        num_fragments = n,
        need_pacing = fst (pacing_params s (length buf) kf),
        packets_per_burst = fst (snd (pacing_params s (length buf) kf)),
        burst_delay_us = snd (snd (pacing_params s (length buf) kf))\<rparr>"
  have s: "m_client_set s" "0 \<le> m_socket s" using sock by (simp_all add: s_def set_client_def)
  have loop: "send_frame net buf fn kf s = send_fragments c 0 0 0 s"
    using s sz fits by (simp add: send_frame_loop c_def n_def)
  have ok: "\<forall>k<num_fragments c. 0 \<le> sendto c k" using net by (simp add: c_def n_def)
  have nf: "num_fragments c = n" by (simp add: c_def)
  have np: "need_pacing c = kf" by (simp add: c_def s_def keyframe_mode_params)
  have main: "pauses (snd (snd (send_fragments c 0 0 0 s))) =
     (if \<not> kf then replicate n None
      else if 500000 < length buf then paced n 2 300
      else if 300000 < length buf then paced n 4 200
      else if 100000 < length buf then paced n 6 150
      else paced n 8 100)"
  proof (cases kf)
    case False
    then have "\<not> need_pacing c" by (simp add: np)
    from send_fragments_pauses_unpaced [OF this ok, of 0 0 0 s] False
    show ?thesis by (simp add: nf)
  next
    case True
    then have need: "need_pacing c" by (simp add: np)
    have tier: "\<exists>B D. 0 < B \<and> packets_per_burst c = int B \<and> burst_delay_us c = D \<and>
        (if 500000 < length buf then paced n 2 300
         else if 300000 < length buf then paced n 4 200
         else if 100000 < length buf then paced n 6 150
         else paced n 8 100) = paced n B D"
      using True by (simp add: c_def s_def keyframe_mode_params)
    then obtain B D where B: "0 < B" "packets_per_burst c = int B" and D: "burst_delay_us c = D"
      and sel: "(if 500000 < length buf then paced n 2 300
         else if 300000 < length buf then paced n 4 200
         else if 100000 < length buf then paced n 6 150
         else paced n 8 100) = paced n B D"
      by blast
    have "0 \<le> (0::int)" "(0::int) < int B" using B by simp_all
    from send_fragments_pauses_paced [OF need B(2) B(1) ok this, of 0 0 s]
    have "pauses (snd (snd (send_fragments c 0 0 0 s))) = paced n B D"
      by (simp only: nf D paced_int)
    then show ?thesis
      using True sel by simp
  qed
  have e: "pauses (snd (snd (send_frame net buf fn kf s))) =
      pauses (snd (snd (send_fragments c 0 0 0 s)))"
    by (simp only: loop)
  show ?thesis
    using trans [OF e main] unfolding s_def n_def .
qed

lemma paced_10_8: "paced 10 8 100 =
    [None, None, None, None, None, None, None, None, Some 100, None, None]"
  by code_simp

subsection \<open>Claims about the video sender\<close>

text \<open>
  Claim C1. For a call of \<^verbatim>\<open>send_frame\<close> with a non-empty payload and a destination set,
  the datagrams of the frame leave in increasing \<^verbatim>\<open>fragment_idx\<close> order starting at 0 (the
  \<open>j\<close>-th datagram of the trace has index \<open>j\<close>); the start-of-frame flag is on the
  fragment with index 0 and on no other, the end-of-frame flag is on the fragment with index
  \<open>fragment_count - 1\<close> and on no other; every datagram carries the low 16 bits of the
  frame number and the fragment count \<open>ceil(size / 1200)\<close>; no payload is longer than 1200
  bytes; and the keyframe flag is on a fragment exactly when the frame is a keyframe. The
  trace never holds more than \<open>ceil(size / 1200)\<close> datagrams, it holds all of them whenever
  the call returns true, and the call returns true when the socket is open, the count fits 16
  bits and the kernel accepts every datagram. Buffers are shorter than \<open>2 ^ 63\<close> bytes.
\<close>

theorem send_frame_fragment_order:
  assumes nonempty: "buf \<noteq> []" and dest: "m_client_set s" and sz: "length buf < 2 ^ 63"
    and run: "send_frame net buf fn kf s = (r, s', es)"
  shows "length (datagrams es) \<le> (length buf + 1199) div 1200
    \<and> (r \<longrightarrow> length (datagrams es) = (length buf + 1199) div 1200)
    \<and> (0 \<le> m_socket s \<and> (length buf + 1199) div 1200 \<le> 65535
          \<and> (\<forall>i < (length buf + 1199) div 1200. 0 \<le> net i) \<longrightarrow> r)
    \<and> (\<forall>j < length (datagrams es).
          unat (fragment_idx (header (datagrams es ! j))) = j
        \<and> (has_flag FLAG_START_OF_FRAME (datagrams es ! j) \<longleftrightarrow> j = 0)
        \<and> (has_flag FLAG_END_OF_FRAME (datagrams es ! j)
              \<longleftrightarrow> j = (length buf + 1199) div 1200 - 1)
        \<and> (has_flag FLAG_KEYFRAME (datagrams es ! j) \<longleftrightarrow> kf)
        \<and> unat (frame_number (header (datagrams es ! j))) = unat fn mod 65536
        \<and> unat (fragment_count (header (datagrams es ! j))) = (length buf + 1199) div 1200
        \<and> length (payload (datagrams es ! j)) \<le> 1200
        \<and> unat (payload_len (header (datagrams es ! j))) = length (payload (datagrams es ! j)))"
proof (cases "0 \<le> m_socket s \<and> (length buf + 1199) div 1200 \<le> 65535")
  case False
  then have "send_frame net buf fn kf s = (False, s, [])"
    using send_frame_rejected [OF sz] send_frame_closed by (auto simp: not_le)
  with run show ?thesis using False by auto
next
  case True
  define n where "n = (length buf + 1199) div 1200"
  define c where "c =
       \<lparr>sendto = net, frame_data = buf, frame_no = fn, keyframe = kf,
        num_fragments = n,
        need_pacing = fst (pacing_params s (length buf) kf),
        packets_per_burst = fst (snd (pacing_params s (length buf) kf)),
        burst_delay_us = snd (snd (pacing_params s (length buf) kf))\<rparr>"
  have n: "n \<le> 65535" using True by (simp add: n_def)
  have c: "num_fragments c = n" "keyframe c = kf" "frame_no c = fn" "sendto c = net"
    by (simp_all add: c_def)
  from True dest sz have "send_frame net buf fn kf s = send_fragments c 0 0 0 s"
    by (simp add: send_frame_loop c_def n_def)
  with run have loop: "send_fragments c 0 0 0 s = (r, s', es)" by simp
  note D = send_fragments_datagrams [OF loop, unfolded c]
  have len: "length (datagrams es) \<le> n" and full: "r \<longrightarrow> length (datagrams es) = n"
    using D by simp_all
  have ok: "r" if "\<forall>i<n. 0 \<le> net i"
    using send_fragments_success [of c 0 0 0 s] that loop by (simp add: c)
  have each: "unat (fragment_idx (header (datagrams es ! j))) = j
        \<and> (has_flag FLAG_START_OF_FRAME (datagrams es ! j) \<longleftrightarrow> j = 0)
        \<and> (has_flag FLAG_END_OF_FRAME (datagrams es ! j) \<longleftrightarrow> j = n - 1)
        \<and> (has_flag FLAG_KEYFRAME (datagrams es ! j) \<longleftrightarrow> kf)
        \<and> unat (frame_number (header (datagrams es ! j))) = unat fn mod 65536
        \<and> unat (fragment_count (header (datagrams es ! j))) = n
        \<and> length (payload (datagrams es ! j)) \<le> 1200
        \<and> unat (payload_len (header (datagrams es ! j))) = length (payload (datagrams es ! j))"
    if j: "j < length (datagrams es)" for j
  proof -
    from D j obtain off' where
      pk: "datagrams es ! j = build_packet c j off' (m_sequence s + of_nat j)"
      by auto
    have "j < 65536" using j len n by simp
    then have idx: "unat (of_nat j :: 16 word) = j" by (simp add: unat_of_nat)
    have cnt: "unat (of_nat n :: 16 word) = n" using n by (simp add: unat_of_nat)
    show ?thesis
      unfolding pk
      by (simp add: flag_bits build_packet_fields c idx cnt frame_number_low16)
  qed
  show ?thesis
    using len full ok each True unfolding n_def by blast
qed

theorem send_frame_fragment_order_witness:
  "replicate 2500 (0 :: 8 word) \<noteq> []
   \<and> m_client_set (set_client LIGHT AUTO sender0)
   \<and> length (replicate 2500 (0 :: 8 word)) < 2 ^ 63
   \<and> fst (send_frame (sendto_full (replicate 2500 0)) (replicate 2500 0) 70000 True
             (set_client LIGHT AUTO sender0))
   \<and> length (datagrams (snd (snd (send_frame (sendto_full (replicate 2500 0)) (replicate 2500 0)
             70000 True (set_client LIGHT AUTO sender0))))) = 3"
proof -
  define X where "X = send_frame (sendto_full (replicate 2500 0)) (replicate 2500 0) 70000 True
             (set_client LIGHT AUTO sender0)"
  have run: "send_frame (sendto_full (replicate 2500 0)) (replicate 2500 0) 70000 True
             (set_client LIGHT AUTO sender0) = (fst X, fst (snd X), snd (snd X))"
    by (simp add: X_def)
  have h1: "replicate 2500 (0 :: 8 word) \<noteq> []" by simp
  have h2: "m_client_set (set_client LIGHT AUTO sender0)" by (simp add: set_client_def)
  have h3: "length (replicate 2500 (0 :: 8 word)) < 2 ^ 63" by simp
  have sock: "0 \<le> m_socket (set_client LIGHT AUTO sender0)"
    by (simp add: set_client_def sender0_def)
  have net: "\<forall>i < (length (replicate 2500 (0 :: 8 word)) + 1199) div 1200.
      0 \<le> sendto_full (replicate 2500 0) i"
    by (simp add: sendto_full_def)
  from send_frame_fragment_order [OF h1 h2 h3 run] sock net
  have "fst X" and "length (datagrams (snd (snd X))) = 3" by simp_all
  with h1 h2 h3 show ?thesis unfolding X_def by blast
qed

text \<open>
  What the keyframe-only policy does, with every datagram accepted by the kernel. A frame
  that is not a keyframe is sent without any pause. A keyframe is sent in bursts chosen by
  its size: over 500000 bytes, a pause of 300 microseconds after every 2 fragments; over
  300000 up to 500000 bytes, 200 microseconds after every 4 fragments; over 100000 up to
  300000 bytes, 150 microseconds after every 6 fragments; at most 100000 bytes, the
  parameters \<^verbatim>\<open>set_client\<close> stored, 100 microseconds after every 8 fragments. No pause
  follows the last fragment of a frame (see \<open>paced\<close>).
\<close>

lemma keyframe_policy_pacing:
  assumes "0 \<le> m_socket s0" and "length buf < 2 ^ 63"
    and "(length buf + 1199) div 1200 \<le> 65535"
    and "\<forall>i < (length buf + 1199) div 1200. 0 \<le> net i"
  shows "pauses (snd (snd (send_frame net buf fn kf (set_client det KEYFRAME s0)))) =
     (if \<not> kf then replicate ((length buf + 1199) div 1200) None
      else if 500000 < length buf then paced ((length buf + 1199) div 1200) 2 300
      else if 300000 < length buf then paced ((length buf + 1199) div 1200) 4 200
      else if 100000 < length buf then paced ((length buf + 1199) div 1200) 6 150
      else paced ((length buf + 1199) div 1200) 8 100)"
  using assms by (rule send_frame_keyframe_pauses)

text \<open>
  Claim C4. Under the keyframe-only policy a keyframe of at most 100 KB is to be sent with no
  pause between bursts (the comment in \<^verbatim>\<open>send_frame\<close> says the same: small keyframes need
  no pacing). The code does otherwise: \<^verbatim>\<open>need_pacing\<close> is set for every keyframe and is
  never narrowed by the size, so a keyframe of 12000 bytes (10 fragments) sent under this
  policy is followed by a pause of 100 microseconds after its eighth fragment.
\<close>

theorem keyframe_12000_bytes_is_paced:
  "pauses (snd (snd (send_frame (sendto_full (replicate 12000 0)) (replicate 12000 0) 1 True
                 (set_client LIGHT KEYFRAME sender0)))) =
     [None, None, None, None, None, None, None, None, Some 100, None, None]"
  using send_frame_keyframe_pauses [of sender0 "replicate 12000 0"
      "sendto_full (replicate 12000 0)" 1 True LIGHT]
  by (simp add: sender0_def sendto_full_def paced_10_8)

theorem keyframe_12000_bytes_is_paced_witness:
  "length (pauses (snd (snd (send_frame (sendto_full (replicate 12000 0)) (replicate 12000 0) 1
                    True (set_client LIGHT KEYFRAME sender0))))) = 11
   \<and> pauses (snd (snd (send_frame (sendto_full (replicate 12000 0)) (replicate 12000 0) 1 True
                    (set_client LIGHT KEYFRAME sender0)))) ! 8 = Some 100"
  using keyframe_12000_bytes_is_paced by simp

text \<open>
  Claim C9. A frame that needs more than 65535 fragments of 1200 bytes is rejected:
  \<^verbatim>\<open>send_frame\<close> returns false, the trace is empty (no datagram, no pause) and the sender,
  with its sequence, byte and packet counters, is the one it was before the call.
\<close>

theorem send_frame_too_large:
  assumes "length buf < 2 ^ 63" and "65535 < (length buf + 1199) div 1200"
  shows "send_frame net buf fn kf s = (False, s, [])"
  using assms by (rule send_frame_rejected)

theorem send_frame_too_large_witness:
  "length (replicate 78642001 (0 :: 8 word)) < 2 ^ 63
   \<and> 65535 < (length (replicate 78642001 (0 :: 8 word)) + 1199) div 1200
   \<and> send_frame (sendto_full (replicate 78642001 0)) (replicate 78642001 0) 5 True
        (set_client LIGHT KEYFRAME sender0)
     = (False, set_client LIGHT KEYFRAME sender0, [])"
  using send_frame_too_large [of "replicate 78642001 0" "sendto_full (replicate 78642001 0)" 5 True
      "set_client LIGHT KEYFRAME sender0"]
  by simp

text \<open>
  Claim C10. With a destination set and the socket open, \<^verbatim>\<open>send_frame\<close> on an empty
  payload computes a fragment count of 0, emits nothing (so no start-of-frame or end-of-frame
  datagram exists for that frame number), leaves the sender with its sequence, byte and packet
  counters unchanged, and returns true.
\<close>

theorem send_frame_empty:
  assumes "m_client_set s" and "0 \<le> m_socket s"
  shows "fragments_needed (length ([] :: 8 word list)) = 0
         \<and> send_frame net [] fn kf s = (True, s, [])"
proof -
  have "length ([] :: 8 word list) < 2 ^ 63" by simp
  from send_frame_loop [OF assms this, of net fn kf]
  show ?thesis by (simp add: send_fragments_done fragment_count_nowrap)
qed

theorem send_frame_empty_witness:
  "m_client_set (set_client LIGHT AUTO sender0) \<and> 0 \<le> m_socket (set_client LIGHT AUTO sender0)
   \<and> fragments_needed (length ([] :: 8 word list)) = 0
   \<and> send_frame (sendto_full []) [] 9 True (set_client LIGHT AUTO sender0)
      = (True, set_client LIGHT AUTO sender0, [])"
  using send_frame_empty [of "set_client LIGHT AUTO sender0" "sendto_full []" 9 True]
  by (simp add: set_client_def sender0_def)

section \<open>Control channel: proofs\<close>

lemma send_config_full_layout:
  "length (send_config_full_data w h vp ip ap sr ch ms codec) = 15"
  "snd (send_config_full n w h vp ip ap sr ch ms codec) =
     [0, 16, MSG_CONFIG_RESPONSE] @ send_config_full_data w h vp ip ap sr ch ms codec"
  by (simp_all add: send_config_full_def send_config_full_data_def send_message_def
        hi_byte_def lo_byte_def Let_def)

lemma and_255_int: "(v :: int) AND 255 = v mod 256"
proof -
  have "(255 :: int) = mask 8" by (simp add: mask_eq_exp_minus_1)
  then have "v AND 255 = take_bit 8 v" by (simp add: take_bit_eq_mask)
  then show ?thesis by (simp add: take_bit_eq_mod)
qed

lemma be16_bytes:
  assumes "0 \<le> v" "v < 65536"
  shows "uint (hi_byte v) * 256 + uint (lo_byte v) = v"
proof -
  have "drop_bit 8 v AND 255 = (v div 256) mod 256"
    by (simp add: and_255_int drop_bit_eq_div)
  also have "\<dots> = v div 256" using assms by simp
  finally have a: "drop_bit 8 v AND 255 = v div 256" .
  have "uint (hi_byte v) = v div 256"
    using assms unfolding hi_byte_def a by (simp add: uint_word_of_int)
  moreover have "uint (lo_byte v) = v mod 256"
    unfolding lo_byte_def and_255_int by (simp add: uint_word_of_int)
  ultimately show ?thesis by simp
qed

lemma run_config_response_length:
  "length (send_config_data w h vp ip) = 8"
  "snd (run_config_response n w h cfg) =
     [0, 9, MSG_CONFIG_RESPONSE] @
     send_config_data w h (uint (video_port cfg)) (uint (input_port cfg))"
  by (simp_all add: run_config_response_def send_config_def send_config_data_def
        send_message_def hi_byte_def lo_byte_def Let_def)

lemma send_config_full_fields:
  assumes "0 \<le> w" "w < 65536"
  shows "uint (send_config_full_data w h vp ip ap sr ch ms codec ! 0) * 256
         + uint (send_config_full_data w h vp ip ap sr ch ms codec ! 1) = w"
    and "send_config_full_data w h vp ip ap sr ch ms codec ! 14 = codec"
  using be16_bytes [OF assms] by (simp_all add: send_config_full_data_def)

lemma run_config_response_full_example:
  "snd (run_config_response_full 18 True True 0 1920 1080 default_config) =
     [0, 16, 4, 7, 128, 4, 56, 37, 29, 37, 30, 37, 31, 187, 128, 2, 10, 0]"
  by (simp add: run_config_response_full_def send_config_full_def send_config_full_data_def
        send_message_def hi_byte_def lo_byte_def Let_def default_config_def MSG_CONFIG_RESPONSE_def)

text \<open>
  Claim C2. The claim asks for the 15-byte configuration response. \<^verbatim>\<open>send_config_full\<close>
  builds it (\<open>send_config_full_layout\<close>, \<open>run_config_response_full_example\<close>), but the
  handshake of \<^verbatim>\<open>Server::run\<close> in \<^verbatim>\<open>server/src/server.cpp\<close> answers with
  \<^verbatim>\<open>send_config\<close>: for a 1920 by 1080 screen and the default ports the message is the
  3-byte frame header followed by 8 payload bytes (width, height, video port, input port),
  with no audio fields and no codec id.
\<close>

theorem run_config_response_short:
  "snd (run_config_response 11 1920 1080 default_config) =
     [0, 9, 4, 7, 128, 4, 56, 37, 29, 37, 30]"
  by (simp add: run_config_response_def send_config_def send_config_data_def
        send_message_def hi_byte_def lo_byte_def Let_def default_config_def MSG_CONFIG_RESPONSE_def)

section \<open>Video encoder: proofs\<close>

subsection \<open>Colour conversion\<close>

lemma luma_range:
  assumes "0 \<le> r" "r \<le> 255" "0 \<le> g" "g \<le> 255" "0 \<le> b" "b \<le> 255"
  shows "16 \<le> luma r g b" "luma r g b \<le> 235"
proof -
  have "0 \<le> 66 * r + 129 * g + 25 * b + 128" "66 * r + 129 * g + 25 * b + 128 \<le> 56228"
    using assms by simp_all
  then have "0 \<le> (66 * r + 129 * g + 25 * b + 128) div 256"
    "(66 * r + 129 * g + 25 * b + 128) div 256 \<le> 219"
    by simp_all
  then show "16 \<le> luma r g b" "luma r g b \<le> 235"
    by (simp_all add: luma_def drop_bit_eq_div)
qed

lemma chroma_u_range:
  assumes "0 \<le> r" "r \<le> 255" "0 \<le> g" "g \<le> 255" "0 \<le> b" "b \<le> 255"
  shows "16 \<le> chroma_u r g b" "chroma_u r g b \<le> 240"
proof -
  have "- 28432 \<le> - 38 * r - 74 * g + 112 * b + 128" "- 38 * r - 74 * g + 112 * b + 128 \<le> 28688"
    using assms by simp_all
  then have "- 112 \<le> (- 38 * r - 74 * g + 112 * b + 128) div 256"
    "(- 38 * r - 74 * g + 112 * b + 128) div 256 \<le> 112"
    by simp_all
  then show "16 \<le> chroma_u r g b" "chroma_u r g b \<le> 240"
    by (simp_all add: chroma_u_def drop_bit_eq_div)
qed

lemma chroma_v_range:
  assumes "0 \<le> r" "r \<le> 255" "0 \<le> g" "g \<le> 255" "0 \<le> b" "b \<le> 255"
  shows "16 \<le> chroma_v r g b" "chroma_v r g b \<le> 240"
proof -
  have "- 28432 \<le> 112 * r - 94 * g - 18 * b + 128" "112 * r - 94 * g - 18 * b + 128 \<le> 28688"
    using assms by simp_all
  then have "- 112 \<le> (112 * r - 94 * g - 18 * b + 128) div 256"
    "(112 * r - 94 * g - 18 * b + 128) div 256 \<le> 112"
    by simp_all
  then show "16 \<le> chroma_v r g b" "chroma_v r g b \<le> 240"
    by (simp_all add: chroma_v_def drop_bit_eq_div)
qed

lemma byte_range: "0 \<le> uint (w :: 8 word)" "uint (w :: 8 word) \<le> 255"
  using uint_lt2p [of w] by simp_all

lemma avg4_range: "0 \<le> (S :: int) \<Longrightarrow> S \<le> 1020 \<Longrightarrow> 0 \<le> S div 4 \<and> S div 4 \<le> 255"
  by arith

lemma block_avg_range: "0 \<le> block_avg bgra s0 s1 x ch" "block_avg bgra s0 s1 x ch \<le> 255"
proof -
  define S where "S = uint (bgra (s0 + x * 8 + ch)) + uint (bgra (s0 + x * 8 + ch + 4))
                 + uint (bgra (s1 + x * 8 + ch)) + uint (bgra (s1 + x * 8 + ch + 4))"
  have "0 \<le> S" "S \<le> 1020"
    unfolding S_def
    using byte_range [of "bgra (s0 + x * 8 + ch)"] byte_range [of "bgra (s0 + x * 8 + ch + 4)"]
      byte_range [of "bgra (s1 + x * 8 + ch)"] byte_range [of "bgra (s1 + x * 8 + ch + 4)"]
    by linarith+
  from avg4_range [OF this]
  show "0 \<le> block_avg bgra s0 s1 x ch" "block_avg bgra s0 s1 x ch \<le> 255"
    by (simp_all add: block_avg_def drop_bit_eq_div S_def)
qed

lemma uint_byte_of_int: "0 \<le> v \<Longrightarrow> v \<le> 255 \<Longrightarrow> uint (of_int v :: 8 word) = v"
  by (simp add: uint_word_of_int)

lemma uint_y_byte:
  "uint (y_byte bgra src x) =
     luma (uint (bgra (src + x * 4 + 2))) (uint (bgra (src + x * 4 + 1)))
          (uint (bgra (src + x * 4 + 0)))"
proof -
  note r = luma_range [OF byte_range byte_range byte_range,
      of "bgra (src + x * 4 + 2)" "bgra (src + x * 4 + 1)" "bgra (src + x * 4 + 0)"]
  show ?thesis
    unfolding y_byte_def Let_def
    by (rule uint_byte_of_int) (use r in linarith)+
qed

lemma uint_u_byte:
  "uint (u_byte bgra s0 s1 x) =
     chroma_u (block_avg bgra s0 s1 x 2) (block_avg bgra s0 s1 x 1) (block_avg bgra s0 s1 x 0)"
proof -
  define U where "U = chroma_u (block_avg bgra s0 s1 x 2) (block_avg bgra s0 s1 x 1)
      (block_avg bgra s0 s1 x 0)"
  have r: "16 \<le> U" "U \<le> 240"
    unfolding U_def by (rule chroma_u_range; rule block_avg_range)+
  then have c: "clamp255 U = U" by (simp add: clamp255_def)
  have "uint (of_int U :: 8 word) = U"
    using r by (intro uint_byte_of_int) linarith+
  then show ?thesis
    unfolding u_byte_def U_def [symmetric] c .
qed

lemma uint_v_byte:
  "uint (v_byte bgra s0 s1 x) =
     chroma_v (block_avg bgra s0 s1 x 2) (block_avg bgra s0 s1 x 1) (block_avg bgra s0 s1 x 0)"
proof -
  define V where "V = chroma_v (block_avg bgra s0 s1 x 2) (block_avg bgra s0 s1 x 1)
      (block_avg bgra s0 s1 x 0)"
  have r: "16 \<le> V" "V \<le> 240"
    unfolding V_def by (rule chroma_v_range; rule block_avg_range)+
  then have c: "clamp255 V = V" by (simp add: clamp255_def)
  have "uint (of_int V :: 8 word) = V"
    using r by (intro uint_byte_of_int) linarith+
  then show ?thesis
    unfolding v_byte_def V_def [symmetric] c .
qed


lemma fold_upd_miss:
  "(\<forall>x \<in> set xs. f x \<noteq> k) \<Longrightarrow> fold (\<lambda>x p. p(f x := g x)) xs m k = m k"
  by (induction xs arbitrary: m) auto

lemma fold_upd_hit:
  "x \<in> set xs \<Longrightarrow> inj_on f (set xs) \<Longrightarrow> fold (\<lambda>x p. p(f x := g x)) xs m (f x) = g x"
proof (induction xs arbitrary: m)
  case Nil
  then show ?case by simp
next
  case (Cons a xs)
  show ?case
  proof (cases "x \<in> set xs")
    case True
    moreover have "inj_on f (set xs)" using Cons.prems(2) by (simp add: inj_on_def)
    ultimately show ?thesis using Cons.IH by simp
  next
    case False
    with Cons.prems have ax: "a = x" by simp
    have miss: "\<forall>y \<in> set xs. f y \<noteq> f x"
      using Cons.prems(2) False ax by (auto simp: inj_on_def)
    have "fold (\<lambda>x p. p(f x := g x)) (a # xs) m (f x) =
          fold (\<lambda>x p. p(f x := g x)) xs (m(f a := g a)) (f x)"
      by simp
    also have "\<dots> = (m(f a := g a)) (f x)"
      using miss by (rule fold_upd_miss)
    also have "\<dots> = g x" by (simp add: ax)
    finally show ?thesis .
  qed
qed

lemma y_row_scalar_hit:
  "x < width \<Longrightarrow> y_row_scalar bgra src dst width 0 p (dst + x) = y_byte bgra src x"
  unfolding y_row_scalar_def
  by (rule fold_upd_hit [where f = "\<lambda>x. dst + x"]) (simp_all add: inj_on_def)

lemma y_row_scalar_miss:
  "k < dst \<or> dst + width \<le> k \<Longrightarrow> y_row_scalar bgra src dst width x0 p k = p k"
  unfolding y_row_scalar_def
  by (rule fold_upd_miss) auto

lemma y_row_unrolled_scalar:
  "y_row_unrolled bgra src dst width x p = y_row_scalar bgra src dst width x p"
proof (induction bgra src dst width x p rule: y_row_unrolled.induct)
  case (1 bgra src dst width x p)
  show ?case
  proof (cases "x + 4 \<le> width")
    case True
    define P where "P = p(dst + x + 0 := y_byte bgra src (x + 0),
                 dst + x + 1 := y_byte bgra src (x + 1),
                 dst + x + 2 := y_byte bgra src (x + 2),
                 dst + x + 3 := y_byte bgra src (x + 3))"
    from True obtain d where d: "width = x + 4 + d"
      using le_Suc_ex by blast
    have "[x..<x + 4 + d] = [x..<x + 4] @ [x + 4..<x + 4 + d]"
      by (rule upt_add_eq_append) simp
    moreover have "[x..<x + 4] = [x, x + 1, x + 2, x + 3]"
      by (simp add: upt_conv_Cons)
    ultimately have l: "[x..<width] = [x, x + 1, x + 2, x + 3] @ [x + 4..<width]"
      by (simp only: d)
    have f4: "fold (\<lambda>x p. p(dst + x := y_byte bgra src x)) [x, x + 1, x + 2, x + 3] p = P"
      by (simp add: P_def add.assoc)
    have "y_row_unrolled bgra src dst width x p = y_row_unrolled bgra src dst width (x + 4) P"
      using True by (subst y_row_unrolled.simps) (simp only: P_def if_True)
    also have "\<dots> = y_row_scalar bgra src dst width (x + 4) P"
      using 1 [OF True] by (simp only: P_def)
    also have "\<dots> = y_row_scalar bgra src dst width x p"
      by (simp only: y_row_scalar_def l fold_append o_apply f4)
    finally show ?thesis .
  next
    case False
    then show ?thesis by (subst y_row_unrolled.simps) simp
  qed
qed

lemma fold_keep:
  "(\<And>y p. y \<in> set ys \<Longrightarrow> step y p k = p k) \<Longrightarrow> fold step ys m k = m k"
  by (induction ys arbitrary: m) simp_all

lemma fold_last_writer:
  assumes "y \<in> set ys"
    and hit: "\<And>p. step y p k = v"
    and miss: "\<And>y' p. y' \<in> set ys \<Longrightarrow> y' \<noteq> y \<Longrightarrow> step y' p k = p k"
  shows "fold step ys m k = v"
  using assms(1) miss
proof (induction ys arbitrary: m)
  case Nil
  then show ?case by simp
next
  case (Cons a ys)
  have miss': "step y' p k = p k" if "y' \<in> set ys" "y' \<noteq> y" for y' p
  proof (rule Cons.prems(2))
    show "y' \<in> set (a # ys)" using that(1) by simp
    show "y' \<noteq> y" by (rule that(2))
  qed
  show ?case
  proof (cases "y \<in> set ys")
    case True
    have "fold step ys (step a m) k = v"
      using True miss' by (rule Cons.IH)
    then show ?thesis by simp
  next
    case False
    with Cons.prems(1) have ay: "a = y" by simp
    have "fold step ys (step y m) k = step y m k"
    proof (rule fold_keep)
      fix y' p assume "y' \<in> set ys"
      moreover from this have "y' \<noteq> y" using False by auto
      ultimately show "step y' p k = p k" by (rule miss')
    qed
    also have "\<dots> = v" by (rule hit)
    finally show ?thesis using ay by simp
  qed
qed

lemma fold_rows_at:
  assumes y: "y < h"
    and hit: "\<And>p. step y p k = v"
    and miss: "\<And>y' p. y' < h \<Longrightarrow> y' \<noteq> y \<Longrightarrow> step y' p k = p k"
  shows "fold step [0..<h] m k = v"
proof (rule fold_last_writer [where y = y])
  show "y \<in> set [0..<h]" using y by simp
  show "step y p k = v" for p by (rule hit)
  show "step y' p k = p k" if "y' \<in> set [0..<h]" "y' \<noteq> y" for y' p
  proof (rule miss)
    show "y' < h" using that(1) by simp
    show "y' \<noteq> y" by (rule that(2))
  qed
qed

lemma uv_row_hit:
  assumes "x < width div 2"
  shows "uv_row bgra s0 s1 d width p (d + x * 2 + 0) = u_byte bgra s0 s1 x"
    and "uv_row bgra s0 s1 d width p (d + x * 2 + 1) = v_byte bgra s0 s1 x"
proof -
  have x: "x \<in> set [0..<width div 2]" using assms by simp
  show "uv_row bgra s0 s1 d width p (d + x * 2 + 0) = u_byte bgra s0 s1 x"
    unfolding uv_row_def
  proof (rule fold_last_writer [OF x])
    show "(p(d + x * 2 + 0 := u_byte bgra s0 s1 x, d + x * 2 + 1 := v_byte bgra s0 s1 x))
            (d + x * 2 + 0) = u_byte bgra s0 s1 x" for p
      by simp
    show "(p(d + y' * 2 + 0 := u_byte bgra s0 s1 y', d + y' * 2 + 1 := v_byte bgra s0 s1 y'))
            (d + x * 2 + 0) = p (d + x * 2 + 0)" if "y' \<noteq> x" for y' p
    proof -
      have "d + x * 2 + 0 \<noteq> d + y' * 2 + 0" "d + x * 2 + 0 \<noteq> d + y' * 2 + 1"
        using that by presburger+
      then show ?thesis by simp
    qed
  qed
  show "uv_row bgra s0 s1 d width p (d + x * 2 + 1) = v_byte bgra s0 s1 x"
    unfolding uv_row_def
  proof (rule fold_last_writer [OF x])
    show "(p(d + x * 2 + 0 := u_byte bgra s0 s1 x, d + x * 2 + 1 := v_byte bgra s0 s1 x))
            (d + x * 2 + 1) = v_byte bgra s0 s1 x" for p
      by simp
    show "(p(d + y' * 2 + 0 := u_byte bgra s0 s1 y', d + y' * 2 + 1 := v_byte bgra s0 s1 y'))
            (d + x * 2 + 1) = p (d + x * 2 + 1)" if "y' \<noteq> x" for y' p
    proof -
      have "d + x * 2 + 1 \<noteq> d + y' * 2 + 0" "d + x * 2 + 1 \<noteq> d + y' * 2 + 1"
        using that by presburger+
      then show ?thesis by simp
    qed
  qed
qed

lemma uv_row_miss:
  assumes "k < d \<or> d + 2 * (width div 2) \<le> k"
  shows "uv_row bgra s0 s1 d width p k = p k"
  unfolding uv_row_def
proof (rule fold_keep)
  fix x p assume "x \<in> set [0..<width div 2]"
  then have "x < width div 2" by simp
  with assms have "k \<noteq> d + x * 2 + 0" "k \<noteq> d + x * 2 + 1" by linarith+
  then show "(p(d + x * 2 + 0 := u_byte bgra s0 s1 x, d + x * 2 + 1 := v_byte bgra s0 s1 x)) k
               = p k"
    by simp
qed

lemma row_disjoint:
  assumes "x < width" "width \<le> S" "y' \<noteq> (y :: nat)"
  shows "y * S + x < y' * S \<or> y' * S + width \<le> y * S + x"
proof (cases "y < y'")
  case True
  then have "Suc y * S \<le> y' * S" by (intro mult_le_mono1) simp
  then show ?thesis using assms by simp
next
  case False
  with assms have "Suc y' * S \<le> y * S" by (intro mult_le_mono1) simp
  then show ?thesis using assms by simp
qed

lemma y_plane_at:
  assumes "y < height" "x < width" "width \<le> y_stride"
  shows "fst (convert_bgra_to_nv12_fast has_sse2 bgra width height src_stride y_plane uv_plane
                y_stride uv_stride) (y * y_stride + x) = y_byte bgra (y * src_stride) x"
proof -
  define step where "step = (\<lambda>y p. if has_sse2
                   then y_row_unrolled bgra (y * src_stride) (y * y_stride) width 0 p
                   else y_row_scalar bgra (y * src_stride) (y * y_stride) width 0 p)"
  have step: "step y p = y_row_scalar bgra (y * src_stride) (y * y_stride) width 0 p" for y p
    by (simp add: step_def y_row_unrolled_scalar)
  have "fold step [0..<height] y_plane (y * y_stride + x) = y_byte bgra (y * src_stride) x"
  proof (rule fold_rows_at [OF assms(1)])
    show "step y p (y * y_stride + x) = y_byte bgra (y * src_stride) x" for p
      unfolding step using assms(2) by (rule y_row_scalar_hit)
    show "step y' p (y * y_stride + x) = p (y * y_stride + x)" if "y' < height" "y' \<noteq> y" for y' p
      unfolding step
      by (rule y_row_scalar_miss) (rule row_disjoint [OF assms(2,3) that(2)])
  qed
  then show ?thesis
    by (simp only: convert_bgra_to_nv12_fast_def fst_conv step_def)
qed

lemma uv_plane_at:
  assumes "y < height div 2" "x < width div 2" "2 * (width div 2) \<le> uv_stride"
  shows "snd (convert_bgra_to_nv12_fast has_sse2 bgra width height src_stride y_plane uv_plane
                y_stride uv_stride) (y * uv_stride + x * 2 + 0)
           = u_byte bgra ((y * 2) * src_stride) ((y * 2 + 1) * src_stride) x"
    and "snd (convert_bgra_to_nv12_fast has_sse2 bgra width height src_stride y_plane uv_plane
                y_stride uv_stride) (y * uv_stride + x * 2 + 1)
           = v_byte bgra ((y * 2) * src_stride) ((y * 2 + 1) * src_stride) x"
proof -
  define step where "step = (\<lambda>y p. uv_row bgra ((y * 2) * src_stride) ((y * 2 + 1) * src_stride)
                     (y * uv_stride) width p)"
  have x0: "x * 2 + 0 < 2 * (width div 2)" and x1: "x * 2 + 1 < 2 * (width div 2)"
    using assms(2) by simp_all
  have "fold step [0..<height div 2] uv_plane (y * uv_stride + x * 2 + 0)
          = u_byte bgra ((y * 2) * src_stride) ((y * 2 + 1) * src_stride) x"
  proof (rule fold_rows_at [OF assms(1)])
    show "step y p (y * uv_stride + x * 2 + 0)
            = u_byte bgra ((y * 2) * src_stride) ((y * 2 + 1) * src_stride) x" for p
      unfolding step_def using assms(2) by (rule uv_row_hit)
    show "step y' p (y * uv_stride + x * 2 + 0) = p (y * uv_stride + x * 2 + 0)"
      if "y' < height div 2" "y' \<noteq> y" for y' p
      unfolding step_def add.assoc
      by (rule uv_row_miss) (rule row_disjoint [OF x0 assms(3) that(2)])
  qed
  then show "snd (convert_bgra_to_nv12_fast has_sse2 bgra width height src_stride y_plane uv_plane
                y_stride uv_stride) (y * uv_stride + x * 2 + 0)
           = u_byte bgra ((y * 2) * src_stride) ((y * 2 + 1) * src_stride) x"
    by (simp only: convert_bgra_to_nv12_fast_def snd_conv step_def)
  have "fold step [0..<height div 2] uv_plane (y * uv_stride + x * 2 + 1)
          = v_byte bgra ((y * 2) * src_stride) ((y * 2 + 1) * src_stride) x"
  proof (rule fold_rows_at [OF assms(1)])
    show "step y p (y * uv_stride + x * 2 + 1)
            = v_byte bgra ((y * 2) * src_stride) ((y * 2 + 1) * src_stride) x" for p
      unfolding step_def using assms(2) by (rule uv_row_hit)
    show "step y' p (y * uv_stride + x * 2 + 1) = p (y * uv_stride + x * 2 + 1)"
      if "y' < height div 2" "y' \<noteq> y" for y' p
      unfolding step_def add.assoc
      by (rule uv_row_miss) (rule row_disjoint [OF x1 assms(3) that(2)])
  qed
  then show "snd (convert_bgra_to_nv12_fast has_sse2 bgra width height src_stride y_plane uv_plane
                y_stride uv_stride) (y * uv_stride + x * 2 + 1)
           = v_byte bgra ((y * 2) * src_stride) ((y * 2 + 1) * src_stride) x"
    by (simp only: convert_bgra_to_nv12_fast_def snd_conv step_def)
qed

lemma block_avg_sums:
  "block_avg bgra s0 s1 x 2 =
     drop_bit 2 (uint (bgra (s0 + x * 8 + 2)) + uint (bgra (s0 + x * 8 + 6))
                 + uint (bgra (s1 + x * 8 + 2)) + uint (bgra (s1 + x * 8 + 6)))"
  "block_avg bgra s0 s1 x 1 =
     drop_bit 2 (uint (bgra (s0 + x * 8 + 1)) + uint (bgra (s0 + x * 8 + 5))
                 + uint (bgra (s1 + x * 8 + 1)) + uint (bgra (s1 + x * 8 + 5)))"
  "block_avg bgra s0 s1 x 0 =
     drop_bit 2 (uint (bgra (s0 + x * 8 + 0)) + uint (bgra (s0 + x * 8 + 4))
                 + uint (bgra (s1 + x * 8 + 0)) + uint (bgra (s1 + x * 8 + 4)))"
proof -
  have e: "a + 2 + 4 = a + 6" "a + 1 + 4 = a + 5" for a :: nat
    by simp_all
  show "block_avg bgra s0 s1 x 2 =
     drop_bit 2 (uint (bgra (s0 + x * 8 + 2)) + uint (bgra (s0 + x * 8 + 6))
                 + uint (bgra (s1 + x * 8 + 2)) + uint (bgra (s1 + x * 8 + 6)))"
    by (simp only: block_avg_def e)
  show "block_avg bgra s0 s1 x 1 =
     drop_bit 2 (uint (bgra (s0 + x * 8 + 1)) + uint (bgra (s0 + x * 8 + 5))
                 + uint (bgra (s1 + x * 8 + 1)) + uint (bgra (s1 + x * 8 + 5)))"
    by (simp only: block_avg_def e)
  show "block_avg bgra s0 s1 x 0 =
     drop_bit 2 (uint (bgra (s0 + x * 8 + 0)) + uint (bgra (s0 + x * 8 + 4))
                 + uint (bgra (s1 + x * 8 + 0)) + uint (bgra (s1 + x * 8 + 4)))"
    by (simp add: block_avg_def)
qed

text \<open>
  Claim C5. After \<^verbatim>\<open>convert_bgra_to_nv12_fast\<close> (either branch of the \<^verbatim>\<open>#ifdef\<close>), with
  destination rows that do not overlap, the luma byte of every pixel with components
  \<open>(R, G, B)\<close> is \<open>((66 R + 129 G + 25 B + 128) >> 8) + 16\<close>, and the chroma pair of every
  2 by 2 block is \<open>U = ((- 38 R - 74 G + 112 B + 128) >> 8) + 128\<close> and
  \<open>V = ((112 R - 94 G - 18 B + 128) >> 8) + 128\<close>, where \<open>R\<close>, \<open>G\<close> and \<open>B\<close> are the
  sums of the four source pixels of the block shifted right by 2. The equations are between
  integers (\<open>drop_bit n\<close> is the shift \<open>>> n\<close>): the byte written is the value of the
  formula, neither truncated by the store nor changed by the clamp, and it lies in
  \<open>[0, 255]\<close>.
\<close>

theorem bgra_to_nv12_formulas:
  assumes "width \<le> y_stride" and "2 * (width div 2) \<le> uv_stride"
  shows "(\<forall>y x. y < height \<and> x < width \<longrightarrow>
            (let R = uint (bgra (y * src_stride + x * 4 + 2));
                 G = uint (bgra (y * src_stride + x * 4 + 1));
                 B = uint (bgra (y * src_stride + x * 4 + 0));
                 Y = uint (fst (convert_bgra_to_nv12_fast has_sse2 bgra width height src_stride
                         y_plane uv_plane y_stride uv_stride) (y * y_stride + x))
             in Y = drop_bit 8 (66 * R + 129 * G + 25 * B + 128) + 16 \<and> 0 \<le> Y \<and> Y \<le> 255))
       \<and> (\<forall>y x. y < height div 2 \<and> x < width div 2 \<longrightarrow>
            (let R = drop_bit 2 (uint (bgra ((y * 2) * src_stride + x * 8 + 2)) + uint (bgra ((y * 2) * src_stride + x * 8 + 6))
                 + uint (bgra ((y * 2 + 1) * src_stride + x * 8 + 2)) + uint (bgra ((y * 2 + 1) * src_stride + x * 8 + 6)));
                 G = drop_bit 2 (uint (bgra ((y * 2) * src_stride + x * 8 + 1)) + uint (bgra ((y * 2) * src_stride + x * 8 + 5))
                 + uint (bgra ((y * 2 + 1) * src_stride + x * 8 + 1)) + uint (bgra ((y * 2 + 1) * src_stride + x * 8 + 5)));
                 B = drop_bit 2 (uint (bgra ((y * 2) * src_stride + x * 8 + 0)) + uint (bgra ((y * 2) * src_stride + x * 8 + 4))
                 + uint (bgra ((y * 2 + 1) * src_stride + x * 8 + 0)) + uint (bgra ((y * 2 + 1) * src_stride + x * 8 + 4)));
                 U = uint (snd (convert_bgra_to_nv12_fast has_sse2 bgra width height src_stride
                         y_plane uv_plane y_stride uv_stride) (y * uv_stride + x * 2 + 0));
                 V = uint (snd (convert_bgra_to_nv12_fast has_sse2 bgra width height src_stride
                         y_plane uv_plane y_stride uv_stride) (y * uv_stride + x * 2 + 1))
             in U = drop_bit 8 (- 38 * R - 74 * G + 112 * B + 128) + 128
              \<and> V = drop_bit 8 (112 * R - 94 * G - 18 * B + 128) + 128
              \<and> 0 \<le> U \<and> U \<le> 255 \<and> 0 \<le> V \<and> V \<le> 255))"
proof -
  have Y: "uint (fst (convert_bgra_to_nv12_fast has_sse2 bgra width height src_stride
                         y_plane uv_plane y_stride uv_stride) (y * y_stride + x))
        = drop_bit 8 (66 * uint (bgra (y * src_stride + x * 4 + 2))
                      + 129 * uint (bgra (y * src_stride + x * 4 + 1))
                      + 25 * uint (bgra (y * src_stride + x * 4 + 0)) + 128) + 16"
    if "y < height \<and> x < width" for y x
  proof -
    from that have y: "y < height" and x: "x < width" by simp_all
    show ?thesis
      by (simp only: y_plane_at [OF y x assms(1)] uint_y_byte luma_def)
  qed
  have U: "uint (snd (convert_bgra_to_nv12_fast has_sse2 bgra width height src_stride
                         y_plane uv_plane y_stride uv_stride) (y * uv_stride + x * 2 + 0))
        = drop_bit 8 (- 38 * (drop_bit 2 (uint (bgra ((y * 2) * src_stride + x * 8 + 2)) + uint (bgra ((y * 2) * src_stride + x * 8 + 6))
                 + uint (bgra ((y * 2 + 1) * src_stride + x * 8 + 2)) + uint (bgra ((y * 2 + 1) * src_stride + x * 8 + 6)))) - 74 * (drop_bit 2 (uint (bgra ((y * 2) * src_stride + x * 8 + 1)) + uint (bgra ((y * 2) * src_stride + x * 8 + 5))
                 + uint (bgra ((y * 2 + 1) * src_stride + x * 8 + 1)) + uint (bgra ((y * 2 + 1) * src_stride + x * 8 + 5)))) + 112 * (drop_bit 2 (uint (bgra ((y * 2) * src_stride + x * 8 + 0)) + uint (bgra ((y * 2) * src_stride + x * 8 + 4))
                 + uint (bgra ((y * 2 + 1) * src_stride + x * 8 + 0)) + uint (bgra ((y * 2 + 1) * src_stride + x * 8 + 4)))) + 128) + 128"
    if "y < height div 2 \<and> x < width div 2" for y x
  proof -
    from that have y: "y < height div 2" and x: "x < width div 2" by simp_all
    show ?thesis
      by (simp only: uv_plane_at(1) [OF y x assms(2)] uint_u_byte chroma_u_def block_avg_sums)
  qed
  have V: "uint (snd (convert_bgra_to_nv12_fast has_sse2 bgra width height src_stride
                         y_plane uv_plane y_stride uv_stride) (y * uv_stride + x * 2 + 1))
        = drop_bit 8 (112 * (drop_bit 2 (uint (bgra ((y * 2) * src_stride + x * 8 + 2)) + uint (bgra ((y * 2) * src_stride + x * 8 + 6))
                 + uint (bgra ((y * 2 + 1) * src_stride + x * 8 + 2)) + uint (bgra ((y * 2 + 1) * src_stride + x * 8 + 6)))) - 94 * (drop_bit 2 (uint (bgra ((y * 2) * src_stride + x * 8 + 1)) + uint (bgra ((y * 2) * src_stride + x * 8 + 5))
                 + uint (bgra ((y * 2 + 1) * src_stride + x * 8 + 1)) + uint (bgra ((y * 2 + 1) * src_stride + x * 8 + 5)))) - 18 * (drop_bit 2 (uint (bgra ((y * 2) * src_stride + x * 8 + 0)) + uint (bgra ((y * 2) * src_stride + x * 8 + 4))
                 + uint (bgra ((y * 2 + 1) * src_stride + x * 8 + 0)) + uint (bgra ((y * 2 + 1) * src_stride + x * 8 + 4)))) + 128) + 128"
    if "y < height div 2 \<and> x < width div 2" for y x
  proof -
    from that have y: "y < height div 2" and x: "x < width div 2" by simp_all
    show ?thesis
      by (simp only: uv_plane_at(2) [OF y x assms(2)] uint_v_byte chroma_v_def block_avg_sums)
  qed
  show ?thesis
    unfolding Let_def
  proof (intro conjI allI impI, goal_cases)
    case (1 y x) then show ?case by (rule Y)
  next
    case (2 y x) show ?case by (rule byte_range)
  next
    case (3 y x) show ?case by (rule byte_range)
  next
    case (4 y x) then show ?case by (rule U)
  next
    case (5 y x) then show ?case by (rule V)
  next
    case (6 y x) show ?case by (rule byte_range)
  next
    case (7 y x) show ?case by (rule byte_range)
  next
    case (8 y x) show ?case by (rule byte_range)
  next
    case (9 y x) show ?case by (rule byte_range)
  qed
qed

lemma sample_image_bytes:
  "uint (sample_image 0) = 8" "uint (sample_image 1) = 20" "uint (sample_image 2) = 200"
  "uint (sample_image 4) = 8" "uint (sample_image 5) = 40" "uint (sample_image 6) = 100"
  "uint (sample_image 8) = 8" "uint (sample_image 9) = 60" "uint (sample_image 10) = 50"
  "uint (sample_image 12) = 8" "uint (sample_image 13) = 81" "uint (sample_image 14) = 10"
  "uint (sample_image (Suc 0)) = 20" "uint (sample_image (Suc (Suc 0))) = 200"
  by (simp_all add: sample_image_def)

theorem bgra_to_nv12_formulas_witness:
  "(2 :: nat) \<le> 2 \<and> 2 * ((2 :: nat) div 2) \<le> 2
   \<and> uint (fst (convert_bgra_to_nv12_fast True sample_image 2 2 8 cleared cleared 2 2) 0) = 78
   \<and> uint (fst (convert_bgra_to_nv12_fast True sample_image 2 2 8 cleared cleared 2 2) 3) = 60
   \<and> uint (snd (convert_bgra_to_nv12_fast True sample_image 2 2 8 cleared cleared 2 2) 0) = 104
   \<and> uint (snd (convert_bgra_to_nv12_fast True sample_image 2 2 8 cleared cleared 2 2) 1) = 148"
proof -
  have h1: "(2 :: nat) \<le> 2" and h2: "2 * ((2 :: nat) div 2) \<le> 2" by simp_all
  note T = bgra_to_nv12_formulas [of 2 2 2 2 sample_image 8 True cleared cleared, OF h1 h2,
      unfolded Let_def]
  from T have Y: "y < 2 \<and> x < 2 \<longrightarrow>
      uint (fst (convert_bgra_to_nv12_fast True sample_image 2 2 8 cleared cleared 2 2) (y * 2 + x))
        = drop_bit 8 (66 * uint (sample_image (y * 8 + x * 4 + 2))
                      + 129 * uint (sample_image (y * 8 + x * 4 + 1))
                      + 25 * uint (sample_image (y * 8 + x * 4 + 0)) + 128) + 16" for y x
    by blast
  from T have UV: "y < 2 div 2 \<and> x < 2 div 2 \<longrightarrow>
      uint (snd (convert_bgra_to_nv12_fast True sample_image 2 2 8 cleared cleared 2 2)
              (y * 2 + x * 2 + 0))
        = drop_bit 8 (- 38 * (drop_bit 2 (uint (sample_image ((y * 2) * 8 + x * 8 + 2)) + uint (sample_image ((y * 2) * 8 + x * 8 + 6))
                 + uint (sample_image ((y * 2 + 1) * 8 + x * 8 + 2)) + uint (sample_image ((y * 2 + 1) * 8 + x * 8 + 6)))) - 74 * (drop_bit 2 (uint (sample_image ((y * 2) * 8 + x * 8 + 1)) + uint (sample_image ((y * 2) * 8 + x * 8 + 5))
                 + uint (sample_image ((y * 2 + 1) * 8 + x * 8 + 1)) + uint (sample_image ((y * 2 + 1) * 8 + x * 8 + 5)))) + 112 * (drop_bit 2 (uint (sample_image ((y * 2) * 8 + x * 8 + 0)) + uint (sample_image ((y * 2) * 8 + x * 8 + 4))
                 + uint (sample_image ((y * 2 + 1) * 8 + x * 8 + 0)) + uint (sample_image ((y * 2 + 1) * 8 + x * 8 + 4)))) + 128) + 128
      \<and> uint (snd (convert_bgra_to_nv12_fast True sample_image 2 2 8 cleared cleared 2 2)
              (y * 2 + x * 2 + 1))
        = drop_bit 8 (112 * (drop_bit 2 (uint (sample_image ((y * 2) * 8 + x * 8 + 2)) + uint (sample_image ((y * 2) * 8 + x * 8 + 6))
                 + uint (sample_image ((y * 2 + 1) * 8 + x * 8 + 2)) + uint (sample_image ((y * 2 + 1) * 8 + x * 8 + 6)))) - 94 * (drop_bit 2 (uint (sample_image ((y * 2) * 8 + x * 8 + 1)) + uint (sample_image ((y * 2) * 8 + x * 8 + 5))
                 + uint (sample_image ((y * 2 + 1) * 8 + x * 8 + 1)) + uint (sample_image ((y * 2 + 1) * 8 + x * 8 + 5)))) - 18 * (drop_bit 2 (uint (sample_image ((y * 2) * 8 + x * 8 + 0)) + uint (sample_image ((y * 2) * 8 + x * 8 + 4))
                 + uint (sample_image ((y * 2 + 1) * 8 + x * 8 + 0)) + uint (sample_image ((y * 2 + 1) * 8 + x * 8 + 4)))) + 128) + 128" for y x
    by blast
  have "uint (fst (convert_bgra_to_nv12_fast True sample_image 2 2 8 cleared cleared 2 2) 0) = 78"
    using Y [of 0 0] by (simp add: sample_image_bytes drop_bit_eq_div)
  moreover
  have "uint (fst (convert_bgra_to_nv12_fast True sample_image 2 2 8 cleared cleared 2 2) 3) = 60"
    using Y [of 1 1] by (simp add: sample_image_bytes drop_bit_eq_div)
  moreover
  have "uint (snd (convert_bgra_to_nv12_fast True sample_image 2 2 8 cleared cleared 2 2) 0) = 104
      \<and> uint (snd (convert_bgra_to_nv12_fast True sample_image 2 2 8 cleared cleared 2 2) 1) = 148"
    using UV [of 0 0] by (simp add: sample_image_bytes drop_bit_eq_div)
  ultimately show ?thesis using h1 h2 by blast
qed

subsection \<open>Forced keyframes\<close>











section \<open>Input relay: proofs\<close>

lemmas kinds = KEY_DOWN_def KEY_UP_def STYLUS_DOWN_def STYLUS_MOVE_def
        STYLUS_HOVER_def STYLUS_UP_def TOUCH_DOWN_def TOUCH_MOVE_def TOUCH_UP_def

lemma uint_less_5: "uint (w :: 8 word) < 5 \<longleftrightarrow> unat w < 5"
  unfolding uint_nat by arith

lemma upt_5: "[0..<5] = [0, 1, 2, 3, 4]"
  by (simp add: upt_rec)

lemma active_count_bounds:
  assumes "k < 5" "active (m_touch_slots s k)"
  shows "1 \<le> active_count s" "active_count s \<le> 5"
proof -
  have "k \<in> set (filter (\<lambda>i. active (m_touch_slots s i)) [0..<5])"
    using assms by simp
  then have "filter (\<lambda>i. active (m_touch_slots s i)) [0..<5] \<noteq> []"
    by (metis empty_iff empty_set)
  then show "1 \<le> active_count s"
    by (cases "filter (\<lambda>i. active (m_touch_slots s i)) [0..<5]") (simp_all add: active_count_def)
  have "length (filter (\<lambda>i. active (m_touch_slots s i)) [0..<5]) \<le> length [0..<5::nat]"
    by (rule length_filter_le)
  then show "active_count s \<le> 5" by (simp add: active_count_def)
qed

lemma clear_tool_on_up_key:
  assumes "1 \<le> n" "n \<le> 5"
  shows "(TouchDev, EV_KEY, tool_key_for_count n, 0)
           \<in> set ((TouchDev, EV_KEY, BTN_TOOL_FINGER, 0) # clear_tool_on_up n)"
proof -
  from assms have "n = 1 \<or> n = 2 \<or> n = 3 \<or> n = 4 \<or> n = 5" by arith
  then show ?thesis
    by (auto simp: tool_key_for_count_def clear_tool_on_up_def)
qed

lemma handle_touch_up:
  assumes init: "is_initialized s" and kind: "ev_kind e = TOUCH_UP"
    and slot: "uint (pointer_id e) < 5"
  shows "handle_input e s =
     (s\<lparr>m_touch_slots :=
          (m_touch_slots s)(nat (uint (pointer_id e)) := \<lparr>active = False, tracking_id = - 1\<rparr>)\<rparr>,
      [(TouchDev, EV_ABS, ABS_MT_SLOT, uint (pointer_id e)),
       (TouchDev, EV_ABS, ABS_MT_TRACKING_ID, - 1),
       (TouchDev, EV_KEY, BTN_TOUCH, 0),
       (TouchDev, EV_KEY, BTN_TOOL_FINGER, 0)]
      @ clear_tool_on_up (active_count s) @
      [(TouchDev, EV_SYN, SYN_REPORT, 0)])"
proof -
  have n: "nat (uint (pointer_id e)) = unat (pointer_id e)"
    by (simp only: unat_eq_nat_uint)
  have "uint (pointer_id e) = int (nat (uint (pointer_id e)))"
    by (simp only: uint_nat)
  then have u: "uint (pointer_id e) < 5" "\<not> uint (pointer_id e) < 0"
    using slot by simp_all
  have fd: "\<not> m_touch_fd s < 0" using init by (simp add: is_initialized_def)
  have "handle_input e s = send_touch (ev_x e) (ev_y e) (uint (pointer_id e)) False 0 s"
    using init kind by (simp add: handle_input_def kinds)
  also have "\<dots> = (s\<lparr>m_touch_slots :=
          (m_touch_slots s)(nat (uint (pointer_id e)) := \<lparr>active = False, tracking_id = - 1\<rparr>)\<rparr>,
      [(TouchDev, EV_ABS, ABS_MT_SLOT, uint (pointer_id e)),
       (TouchDev, EV_ABS, ABS_MT_TRACKING_ID, - 1),
       (TouchDev, EV_KEY, BTN_TOUCH, 0),
       (TouchDev, EV_KEY, BTN_TOOL_FINGER, 0)]
      @ clear_tool_on_up (active_count s) @
      [(TouchDev, EV_SYN, SYN_REPORT, 0)])"
    unfolding send_touch_def Let_def using u fd by simp
  finally show ?thesis .
qed
lemma two_down:
  "fst (handle_inputs [event TOUCH_DOWN 0 0, event TOUCH_DOWN 1 0] uinput0) =
     uinput0\<lparr>m_touch_slots := no_slots(0 := \<lparr>active = True, tracking_id = 0\<rparr>,
                                       1 := \<lparr>active = True, tracking_id = 1\<rparr>)\<rparr>"
  by (simp add: handle_input_def send_touch_def is_initialized_def kinds Let_def event_def
        uinput0_def no_slots_def active_count_def upt_5)

lemma two_down_count:
  "active_count (uinput0\<lparr>m_touch_slots := no_slots(0 := \<lparr>active = True, tracking_id = 0\<rparr>,
                                       1 := \<lparr>active = True, tracking_id = 1\<rparr>)\<rparr>) = 2"
  by (simp add: active_count_def upt_5 no_slots_def)

text \<open>
  Claim C6 (as amended). When a touch-up is processed for an active slot, the relay selects the
  slot, writes tracking id \<open>- 1\<close>, clears \<^verbatim>\<open>BTN_TOUCH\<close> and \<^verbatim>\<open>BTN_TOOL_FINGER\<close> whether
  or not other slots stay active, clears the tool key of the number of slots that were active
  just before the release (double, triple, quad or quint tap for 2 to 5; the finger key for
  1), synchronises, and marks the slot inactive.
\<close>

theorem touch_up_release:
  assumes init: "is_initialized s" and kind: "ev_kind e = TOUCH_UP"
    and slot: "uint (pointer_id e) < 5"
    and act: "active (m_touch_slots s (nat (uint (pointer_id e))))"
  shows "snd (handle_input e s) =
           [(TouchDev, EV_ABS, ABS_MT_SLOT, uint (pointer_id e)),
            (TouchDev, EV_ABS, ABS_MT_TRACKING_ID, - 1),
            (TouchDev, EV_KEY, BTN_TOUCH, 0),
            (TouchDev, EV_KEY, BTN_TOOL_FINGER, 0)]
           @ clear_tool_on_up (active_count s) @
           [(TouchDev, EV_SYN, SYN_REPORT, 0)]
       \<and> (TouchDev, EV_KEY, tool_key_for_count (active_count s), 0) \<in> set (snd (handle_input e s))
       \<and> 1 \<le> active_count s \<and> active_count s \<le> 5
       \<and> m_touch_slots (fst (handle_input e s)) (nat (uint (pointer_id e)))
           = \<lparr>active = False, tracking_id = - 1\<rparr>"
proof -
  have "nat (uint (pointer_id e)) < 5" using slot by (simp add: uint_less_5)
  note b = active_count_bounds [OF this act]
  from clear_tool_on_up_key [OF b]
  have "(TouchDev, EV_KEY, tool_key_for_count (active_count s), 0)
          \<in> set (snd (handle_input e s))"
    by (auto simp: handle_touch_up [OF init kind slot])
  then show ?thesis
    using b by (simp add: handle_touch_up [OF init kind slot])
qed

theorem touch_up_release_witness:
  "is_initialized (fst (handle_inputs [event TOUCH_DOWN 0 0, event TOUCH_DOWN 1 0] uinput0))
   \<and> ev_kind (event TOUCH_UP 0 0) = TOUCH_UP
   \<and> uint (pointer_id (event TOUCH_UP 0 0)) < 5
   \<and> active (m_touch_slots (fst (handle_inputs [event TOUCH_DOWN 0 0, event TOUCH_DOWN 1 0] uinput0))
        (nat (uint (pointer_id (event TOUCH_UP 0 0)))))
   \<and> snd (handle_input (event TOUCH_UP 0 0)
            (fst (handle_inputs [event TOUCH_DOWN 0 0, event TOUCH_DOWN 1 0] uinput0))) =
       [(TouchDev, EV_ABS, ABS_MT_SLOT, 0),
        (TouchDev, EV_ABS, ABS_MT_TRACKING_ID, - 1),
        (TouchDev, EV_KEY, BTN_TOUCH, 0),
        (TouchDev, EV_KEY, BTN_TOOL_FINGER, 0),
        (TouchDev, EV_KEY, BTN_TOOL_DOUBLETAP, 0),
        (TouchDev, EV_SYN, SYN_REPORT, 0)]"
  using touch_up_release [of "fst (handle_inputs [event TOUCH_DOWN 0 0, event TOUCH_DOWN 1 0] uinput0)"
      "event TOUCH_UP 0 0"]
  unfolding two_down two_down_count
  by (simp add: is_initialized_def uinput0_def event_def clear_tool_on_up_def)

text \<open>
  Claim C6 as stated fails: with slots 0 and 1 active, releasing slot 0 clears \<^verbatim>\<open>BTN_TOUCH\<close>
  although slot 1 is still active after the release.
\<close>

theorem touch_up_clears_touch_counterexample:
  "(TouchDev, EV_KEY, BTN_TOUCH, 0)
     \<in> set (snd (handle_input (event TOUCH_UP 0 0)
            (fst (handle_inputs [event TOUCH_DOWN 0 0, event TOUCH_DOWN 1 0] uinput0))))
   \<and> active (m_touch_slots
        (fst (handle_input (event TOUCH_UP 0 0)
            (fst (handle_inputs [event TOUCH_DOWN 0 0, event TOUCH_DOWN 1 0] uinput0)))) 1)"
proof -
  have i: "is_initialized (uinput0\<lparr>m_touch_slots := no_slots(0 := \<lparr>active = True, tracking_id = 0\<rparr>,
                                       1 := \<lparr>active = True, tracking_id = 1\<rparr>)\<rparr>)"
    by (simp add: is_initialized_def uinput0_def)
  have k: "ev_kind (event TOUCH_UP 0 0) = TOUCH_UP" by (simp add: event_def)
  have p: "uint (pointer_id (event TOUCH_UP 0 0)) < 5" by (simp add: event_def)
  show ?thesis
    unfolding two_down handle_touch_up [OF i k p]
    by (simp add: event_def)
qed
lemma handle_input_stylus_safe:
  assumes "buttons e AND 0x20 = 0"
    and "m_stylus_touching s \<longrightarrow> m_stylus_tool_active s"
  shows "m_stylus_touching (fst (handle_input e s)) \<longrightarrow> m_stylus_tool_active (fst (handle_input e s))"
  using assms
  by (simp add: handle_input_def send_stylus_def send_touch_def Let_def)

lemma handle_inputs_stylus_safe:
  assumes "\<forall>e \<in> set es. buttons e AND 0x20 = 0"
    and "m_stylus_touching s \<longrightarrow> m_stylus_tool_active s"
  shows "m_stylus_touching (fst (handle_inputs es s))
         \<longrightarrow> m_stylus_tool_active (fst (handle_inputs es s))"
  using assms
proof (induction es arbitrary: s)
  case Nil
  then show ?case by simp
next
  case (Cons e es)
  have "m_stylus_touching (fst (handle_input e s)) \<longrightarrow> m_stylus_tool_active (fst (handle_input e s))"
    using Cons.prems by (intro handle_input_stylus_safe) simp_all
  from Cons.IH [OF _ this] Cons.prems(1)
  show ?case by (simp add: case_prod_beta)
qed

lemma handle_stylus_up:
  assumes "is_initialized s" and "ev_kind e = STYLUS_UP"
  shows "\<not> m_stylus_tool_active (fst (handle_input e s))
       \<and> \<not> m_stylus_touching (fst (handle_input e s))
       \<and> [v. (d, t, c, v) \<leftarrow> snd (handle_input e s), c = ABS_PRESSURE] = [0]"
  using assms
  by (simp add: handle_input_def send_stylus_def is_initialized_def kinds Let_def)

lemma hover_then_down:
  "fst (handle_inputs [event STYLUS_HOVER 0 0, event STYLUS_DOWN 0 0] uinput0) =
     uinput0\<lparr>m_stylus_tool_active := True, m_stylus_touching := True\<rparr>"
  by (simp add: handle_input_def send_stylus_def is_initialized_def kinds Let_def event_def
        uinput0_def)

text \<open>
  Claim C7 (as amended). Over any sequence of events none of which carries the eraser bit
  (0x20), tip contact implies tool present: the implication is kept by every event, so it
  holds in every state reached from one where it holds. Processing a stylus-up event on an
  initialised relay leaves tool present false and tip contact false, and the only pressure
  value it emits is 0.
\<close>

theorem stylus_state_safety:
  "((\<forall>e \<in> set es. buttons e AND 0x20 = 0)
      \<and> (m_stylus_touching s \<longrightarrow> m_stylus_tool_active s)
      \<longrightarrow> (m_stylus_touching (fst (handle_inputs es s))
            \<longrightarrow> m_stylus_tool_active (fst (handle_inputs es s))))
   \<and> (is_initialized s \<and> ev_kind e = STYLUS_UP
      \<longrightarrow> \<not> m_stylus_tool_active (fst (handle_input e s))
          \<and> \<not> m_stylus_touching (fst (handle_input e s))
          \<and> [v. (d, t, c, v) \<leftarrow> snd (handle_input e s), c = ABS_PRESSURE] = [0])"
  using handle_inputs_stylus_safe [of es s] handle_stylus_up [of s e] by blast

theorem stylus_state_safety_witness:
  "buttons (event STYLUS_HOVER 0 0) AND 0x20 = 0 \<and> buttons (event STYLUS_DOWN 0 0) AND 0x20 = 0
   \<and> \<not> m_stylus_touching uinput0
   \<and> m_stylus_touching (fst (handle_inputs [event STYLUS_HOVER 0 0, event STYLUS_DOWN 0 0] uinput0))
   \<and> m_stylus_tool_active (fst (handle_inputs [event STYLUS_HOVER 0 0, event STYLUS_DOWN 0 0] uinput0))
   \<and> is_initialized (uinput0\<lparr>m_stylus_tool_active := True, m_stylus_touching := True\<rparr>)
   \<and> ev_kind (event STYLUS_UP 0 0) = STYLUS_UP
   \<and> \<not> m_stylus_tool_active (fst (handle_input (event STYLUS_UP 0 0)
          (uinput0\<lparr>m_stylus_tool_active := True, m_stylus_touching := True\<rparr>)))
   \<and> \<not> m_stylus_touching (fst (handle_input (event STYLUS_UP 0 0)
          (uinput0\<lparr>m_stylus_tool_active := True, m_stylus_touching := True\<rparr>)))"
proof -
  have b: "buttons (event STYLUS_HOVER 0 0) AND 0x20 = 0"
    "buttons (event STYLUS_DOWN 0 0) AND 0x20 = 0"
    by (simp_all add: event_def)
  have s0: "\<not> m_stylus_touching uinput0" by (simp add: uinput0_def)
  have t: "m_stylus_touching (fst (handle_inputs [event STYLUS_HOVER 0 0, event STYLUS_DOWN 0 0] uinput0))"
    unfolding hover_then_down by simp
  have i: "is_initialized (uinput0\<lparr>m_stylus_tool_active := True, m_stylus_touching := True\<rparr>)"
    by (simp add: is_initialized_def uinput0_def)
  have k: "ev_kind (event STYLUS_UP 0 0) = STYLUS_UP" by (simp add: event_def)
  from stylus_state_safety [of "[event STYLUS_HOVER 0 0, event STYLUS_DOWN 0 0]" uinput0
      "event STYLUS_UP 0 0"] b s0 t
  have a: "m_stylus_tool_active
      (fst (handle_inputs [event STYLUS_HOVER 0 0, event STYLUS_DOWN 0 0] uinput0))"
    by simp
  from stylus_state_safety [of "[]" "uinput0\<lparr>m_stylus_tool_active := True, m_stylus_touching := True\<rparr>"
      "event STYLUS_UP 0 0"] i k
  have u: "\<not> m_stylus_tool_active (fst (handle_input (event STYLUS_UP 0 0)
          (uinput0\<lparr>m_stylus_tool_active := True, m_stylus_touching := True\<rparr>)))
     \<and> \<not> m_stylus_touching (fst (handle_input (event STYLUS_UP 0 0)
          (uinput0\<lparr>m_stylus_tool_active := True, m_stylus_touching := True\<rparr>)))"
    by blast
  from b s0 t a i k u show ?thesis by blast
qed

text \<open>
  Claim C7 as stated fails: a stylus-down event with the eraser bit set, received by a fresh
  relay, sets tip contact while tool present stays false (no tool key is pressed either).
\<close>

theorem eraser_down_breaks_safety_counterexample:
  "m_stylus_touching (fst (handle_input (event STYLUS_DOWN 0 0x20) uinput0))
   \<and> \<not> m_stylus_tool_active (fst (handle_input (event STYLUS_DOWN 0 0x20) uinput0))"
  by (simp add: handle_input_def send_stylus_def is_initialized_def kinds Let_def event_def
        uinput0_def)

text \<open>
  Claim C8 (as amended). A key-down or key-up event is dropped by \<^verbatim>\<open>handle_input\<close>:
  nothing is emitted on any synthetic device and the relay is unchanged.
\<close>

theorem key_events_dropped:
  assumes "ev_kind e = KEY_DOWN \<or> ev_kind e = KEY_UP"
  shows "handle_input e s = (s, [])"
  using assms
  by (auto simp: handle_input_def KEY_DOWN_def KEY_UP_def STYLUS_DOWN_def STYLUS_MOVE_def
        STYLUS_HOVER_def STYLUS_UP_def TOUCH_DOWN_def TOUCH_MOVE_def TOUCH_UP_def)

theorem key_events_dropped_witness:
  "(ev_kind (event KEY_DOWN 0 30) = KEY_DOWN \<or> ev_kind (event KEY_DOWN 0 30) = KEY_UP)
   \<and> handle_input (event KEY_DOWN 0 30) uinput0 = (uinput0, [])"
  using key_events_dropped [of "event KEY_DOWN 0 30" uinput0]
  by (simp add: event_def)

text \<open>
  Claim C8 as stated fails: a key-down followed by a key-up, both carrying Linux key code 30
  in the buttons field, emit nothing at all.
\<close>

theorem key_down_emits_nothing_counterexample:
  "snd (handle_inputs [event KEY_DOWN 0 30, event KEY_UP 0 30] uinput0) = []"
  by (simp add: handle_input_def event_def kinds)

end
